theory Spec2Isabelle
  imports Complex_Main
begin

section \<open>Numbers, errors and the random source\<close>

text \<open>
  The scheme of \<^verbatim>\<open>encryption/lwe.ts\<close> and its helpers of \<^verbatim>\<open>encryption/utils.ts\<close> work on
  TypeScript numbers, which are IEEE 754 doubles. An integer-valued number (a key or
  ciphertext entry, a dimension, a modulus, a bound or a candidate of the prime search)
  is modelled as the \<^typ>\<open>int\<close> it holds. A sum, a difference or a product of two such numbers is the exact result
  rounded to the nearest double, a tie going to the even significand; the function \<open>fl\<close>
  below is that rounding, so \<^verbatim>\<open>a + b\<close> of the source is \<open>fl (a + b)\<close> here. The remainder
  \<^verbatim>\<open>%\<close>, the halving \<^verbatim>\<open>Math.floor(q / 2)\<close> and the comparisons are exact on doubles. The
  rounding is that of finite doubles: magnitudes stay below \<open>2 ^ 1024\<close>.

  The counter of a loop that runs over an array or up to a count is a natural number
  here; it stays below \<open>2 ^ 53\<close>, where counting is exact.

  The numbers that are not integers (\<^verbatim>\<open>Math.random()\<close>, \<^verbatim>\<open>Math.sqrt\<close> and what the samplers
  and the noise parameter compute from them) are modelled as \<^typ>\<open>real\<close>, in exact
  arithmetic. The sample count of key generation, \<^verbatim>\<open>Math.floor(n * Math.log(q))\<close>, depends
  on how the host approximates the logarithm and rounds the product; there the two host
  operations are parameters of the model.

  Every \<^verbatim>\<open>throw new Error(msg)\<close> of the source is one constructor of \<open>error\<close>, one per
  message; \<open>UndefinedElement\<close> is the TypeError of reading a property of \<^verbatim>\<open>undefined\<close>.
\<close>

datatype error =
    StdNotPositive          \<comment> \<open>Standard deviation must be positive\<close>
  | QNotPositiveInteger     \<comment> \<open>q must be a positive integer\<close>
  | NNotPositiveInteger     \<comment> \<open>n must be a positive integer\<close>
  | LengthMismatch          \<comment> \<open>Vectors must have the same length\<close>
  | RangeOrder              \<comment> \<open>a must be less than or equal to b\<close>
  | BoundsNotInteger        \<comment> \<open>a and b must be integers\<close>
  | InvalidDimension        \<comment> \<open>n must be greater than 1\<close>
  | ModulusTooSmall         \<comment> \<open>q must be greater than n^2\<close>
  | ModulusNotPrime         \<comment> \<open>q must be a prime number\<close>
  | InvalidMessage          \<comment> \<open>Message must be 0 or 1\<close>
  | UndefinedElement        \<comment> \<open>TypeError: property of undefined\<close>

text \<open>
  \<^verbatim>\<open>Math.random()\<close> reads a process-wide generator. The model makes it explicit: the
  random source is a sequence of draws \<open>rand\<close>, and every function that draws takes the
  position of the next draw and returns the position after its last one.
\<close>

type_synonym rng = "nat \<Rightarrow> real"

text \<open>The contract of \<^verbatim>\<open>Math.random()\<close>: every draw lies in \<open>[0, 1)\<close>.\<close>

definition unit_draws :: "rng \<Rightarrow> bool" where
  "unit_draws rand = (\<forall>i. 0 \<le> rand i \<and> rand i < 1)"

text \<open>
  Rounding to the nearest double. For \<open>a \<ge> 0\<close>, \<open>ulp_of a\<close> is the gap between the
  doubles around \<open>a\<close>: 1 below \<open>2 ^ 53\<close>, and doubled with every further bit. \<open>fl x\<close> keeps
  the 53 leading bits of \<open>\<bar>x\<bar>\<close> and rounds the rest to the nearest, a tie to the even
  significand.
\<close>

function ulp_of :: "int \<Rightarrow> int" where
  "ulp_of a = (if a < 2 ^ 53 then 1 else 2 * ulp_of (a div 2))"
  by pat_completeness auto
termination
  by (relation "measure nat") auto

declare ulp_of.simps [simp del]

definition fl :: "int \<Rightarrow> int" where
  "fl x =
     (let a = \<bar>x\<bar>;
          u = ulp_of a;
          m = a div u;
          r = a mod u;
          m' = (if 2 * r > u \<or> (2 * r = u \<and> odd m) then m + 1 else m)
      in sgn x * (m' * u))"

text \<open>
  The host operations behind \<^verbatim>\<open>Math.floor(n * Math.log(q))\<close>: \<^verbatim>\<open>Math.log\<close>, which the
  language leaves to the implementation, and the product of two doubles.
\<close>

record host_math =
  math_log :: "real \<Rightarrow> real"
  times_d :: "real \<Rightarrow> real \<Rightarrow> real"

section \<open>Data model (types.ts)\<close>

type_synonym Vector = "int list"

record PublicKeyElement =
  vector :: Vector
  scalar :: int

type_synonym Ciphertext = PublicKeyElement

text \<open>
  The fields \<^verbatim>\<open>n\<close> and \<^verbatim>\<open>q\<close> of the two key types, and the field \<^verbatim>\<open>vector\<close> of the
  secret key, carry a prefix here: a record field is a constant of the theory.
\<close>

record PublicKey =
  elements :: "PublicKeyElement list"
  pk_n :: int
  pk_q :: int

record SecretKey =
  sk_vector :: Vector
  sk_n :: int
  sk_q :: int

section \<open>Arithmetic utilities (utils.ts)\<close>

text \<open>
  The operator \<^verbatim>\<open>%\<close> of JavaScript on integers: the remainder of the truncated division,
  with the sign of the dividend; it is exact on doubles. (For a divisor 0 JavaScript gives
  NaN; the theorems below are about a modulus \<open>q > 0\<close>.)
\<close>

definition js_rem :: "int \<Rightarrow> int \<Rightarrow> int" where
  "js_rem a b = sgn a * (\<bar>a\<bar> mod \<bar>b\<bar>)"

text \<open>
  \<^verbatim>\<open>mod(a, q) = ((a % q) + q) % q\<close> (named \<open>mod_q\<close>: \<open>mod\<close> is HOL's operator); the sum
  in the middle is a sum of doubles.
\<close>

definition mod_q :: "int \<Rightarrow> int \<Rightarrow> int" where
  "mod_q a q = js_rem (fl (js_rem a q + q)) q"

text \<open>\<^verbatim>\<open>modVector\<close>: the loop pushes \<^verbatim>\<open>mod(a[i], q)\<close> for each index in turn.\<close>

fun modVector :: "Vector \<Rightarrow> int \<Rightarrow> Vector" where
  "modVector [] q = []"
| "modVector (x # xs) q = mod_q x q # modVector xs q"

text \<open>\<^verbatim>\<open>sumVectors\<close>: the length check, then the loop over the indices of \<open>a\<close>.\<close>

fun sumVectors_loop :: "Vector \<Rightarrow> Vector \<Rightarrow> Vector" where
  "sumVectors_loop (x # xs) (y # ys) = fl (x + y) # sumVectors_loop xs ys"
| "sumVectors_loop _ _ = []"

definition sumVectors :: "Vector \<Rightarrow> Vector \<Rightarrow> error + Vector" where
  "sumVectors a b =
     (if length a \<noteq> length b then Inl LengthMismatch else Inr (sumVectors_loop a b))"

text \<open>\<^verbatim>\<open>dotProduct\<close>: the length check, then the loop that adds \<^verbatim>\<open>a[i] * b[i]\<close> to \<^verbatim>\<open>sum\<close>.\<close>

fun dotProduct_loop :: "Vector \<Rightarrow> Vector \<Rightarrow> int \<Rightarrow> int" where
  "dotProduct_loop (x # xs) (y # ys) acc = dotProduct_loop xs ys (fl (acc + fl (x * y)))"
| "dotProduct_loop _ _ acc = acc"

definition dotProduct :: "Vector \<Rightarrow> Vector \<Rightarrow> error + int" where
  "dotProduct a b =
     (if length a \<noteq> length b then Inl LengthMismatch else Inr (dotProduct_loop a b 0))"

text \<open>
  \<^verbatim>\<open>isPrime\<close>: the three early returns, then the loop over the odd candidates
  \<^verbatim>\<open>i = 3, 5, ...\<close> while \<^verbatim>\<open>i <= Math.sqrt(n)\<close>. The step \<^verbatim>\<open>i += 2\<close> is exact in every
  run of the loop: the counter could reach \<open>2 ^ 53\<close> only for an \<open>n\<close> from \<open>2 ^ 106\<close> on,
  and a double of that size is even, so that the third return comes before the loop.
\<close>

function isPrime_loop :: "int \<Rightarrow> int \<Rightarrow> bool" where
  "isPrime_loop n i =
     (if real_of_int i \<le> sqrt (real_of_int n)
      then (if js_rem n i = 0 then False else isPrime_loop n (i + 2))
      else True)"
  by pat_completeness auto
termination
  by (relation "measure (\<lambda>(n, i). nat (\<lfloor>sqrt (real_of_int n)\<rfloor> + 1 - i))")
     (auto simp: le_floor_iff)

declare isPrime_loop.simps [simp del]

definition isPrime :: "int \<Rightarrow> bool" where
  "isPrime n =
     (if n < 2 then False
      else if n = 2 then True
      else if js_rem n 2 = 0 then False
      else isPrime_loop n 3)"



section \<open>Sampling utilities (utils.ts)\<close>

text \<open>
  \<^verbatim>\<open>set[idx]\<close> on an array: the element, or \<^verbatim>\<open>undefined\<close> (here \<open>None\<close>) when the index
  is out of range.
\<close>

definition js_index :: "'a list \<Rightarrow> int \<Rightarrow> 'a option" where
  "js_index xs k = (if 0 \<le> k \<and> nat k < length xs then Some (xs ! nat k) else None)"

text \<open>
  \<^verbatim>\<open>chooseRandomSubset\<close>: one draw per element of the input, in order; an element is kept
  when its draw is below \<^verbatim>\<open>0.5\<close>. When nothing was kept, one more draw picks the index
  \<^verbatim>\<open>Math.floor(Math.random() * set.length)\<close>. The elements of the result are options
  because that last read can be \<^verbatim>\<open>undefined\<close>.
\<close>

fun chooseRandomSubset_loop :: "rng \<Rightarrow> nat \<Rightarrow> 'a list \<Rightarrow> 'a list \<Rightarrow> 'a list \<times> nat" where
  "chooseRandomSubset_loop rand i [] res = (res, i)"
| "chooseRandomSubset_loop rand i (x # xs) res =
     chooseRandomSubset_loop rand (Suc i) xs (if rand i < 1 / 2 then res @ [x] else res)"

definition chooseRandomSubset :: "rng \<Rightarrow> nat \<Rightarrow> 'a list \<Rightarrow> 'a option list \<times> nat" where
  "chooseRandomSubset rand i items =
     (case chooseRandomSubset_loop rand i items [] of (res, j) \<Rightarrow>
        if length res = 0
        then (let idx = \<lfloor>rand j * real (length items)\<rfloor> in ([js_index items idx], Suc j))
        else (map Some res, j))"

text \<open>
  \<^verbatim>\<open>sampleUniform\<close>. The test \<^verbatim>\<open>!Number.isInteger(q)\<close> is always false for an integer
  \<open>q\<close>; the test \<^verbatim>\<open>q <= 0\<close> remains.
\<close>

definition sampleUniform :: "rng \<Rightarrow> nat \<Rightarrow> int \<Rightarrow> error + (int \<times> nat)" where
  "sampleUniform rand i q =
     (if q \<le> 0 then Inl QNotPositiveInteger
      else Inr (\<lfloor>rand i * real_of_int q\<rfloor>, Suc i))"

fun sampleUniformVector_loop ::
  "rng \<Rightarrow> nat \<Rightarrow> int \<Rightarrow> nat \<Rightarrow> Vector \<Rightarrow> error + (Vector \<times> nat)" where
  "sampleUniformVector_loop rand i q 0 result = Inr (result, i)"
| "sampleUniformVector_loop rand i q (Suc k) result =
     (case sampleUniform rand i q of
        Inl e \<Rightarrow> Inl e
      | Inr (x, j) \<Rightarrow> sampleUniformVector_loop rand j q k (result @ [x]))"

definition sampleUniformVector :: "rng \<Rightarrow> nat \<Rightarrow> int \<Rightarrow> int \<Rightarrow> error + (Vector \<times> nat)" where
  "sampleUniformVector rand i q n =
     (if n \<le> 0 then Inl NNotPositiveInteger
      else sampleUniformVector_loop rand i q (nat n) [])"

text \<open>
  \<^verbatim>\<open>sampleNormal\<close>: the rejection loop of the polar method draws pairs until
  \<^verbatim>\<open>s_val\<close> lies strictly between 0 and 1. Nothing bounds the number of rounds, so the
  loop is a partial function: \<open>None\<close> is a run that never leaves the loop.
\<close>

partial_function (option) sampleNormal_loop :: "rng \<Rightarrow> nat \<Rightarrow> (real \<times> real \<times> nat) option" where
  "sampleNormal_loop rand i =
     (let u = 2 * rand i - 1;
          v = 2 * rand (Suc i) - 1;
          s_val = u * u + v * v
      in if s_val \<ge> 1 \<or> s_val = 0 then sampleNormal_loop rand (i + 2)
         else Some (u, s_val, i + 2))"

text \<open>\<^verbatim>\<open>Math.round\<close>: the nearest integer, a half rounded up.\<close>

definition js_round :: "real \<Rightarrow> int" where
  "js_round x = \<lfloor>x + 1 / 2\<rfloor>"

definition sampleNormal :: "rng \<Rightarrow> nat \<Rightarrow> real \<Rightarrow> (error + (int \<times> nat)) option" where
  "sampleNormal rand i s =
     (if s \<le> 0 then Some (Inl StdNotPositive)
      else (case sampleNormal_loop rand i of
              None \<Rightarrow> None
            | Some (u, s_val, j) \<Rightarrow>
                (let z0 = u * sqrt ((- 2 * ln s_val) / s_val)
                 in Some (Inr (js_round (z0 * s), j)))))"

text \<open>
  The pair of draws at position \<open>i\<close> ends the rejection loop; a random source is
  \<open>fair\<close> when from every position on some later round of the loop is accepted.
\<close>

definition accepted :: "rng \<Rightarrow> nat \<Rightarrow> bool" where
  "accepted rand i =
     (let u = 2 * rand i - 1;
          v = 2 * rand (Suc i) - 1;
          s_val = u * u + v * v
      in \<not> (s_val \<ge> 1 \<or> s_val = 0))"

definition fair_draws :: "rng \<Rightarrow> bool" where
  "fair_draws rand = (\<forall>i. \<exists>k. accepted rand (i + 2 * k))"

section \<open>The scheme (lwe.ts)\<close>

text \<open>
  \<^verbatim>\<open>keygen\<close>: the three parameter checks in the order of the source, then the derived
  quantities, the secret vector, and the loop that builds the \<open>m\<close> public samples. The
  noise parameter handed to \<^verbatim>\<open>sampleNormal\<close> is \<^verbatim>\<open>Math.floor(alpha * q)\<close>; the sample count
  is \<^verbatim>\<open>Math.floor(n * Math.log(q))\<close> as the host computes it.
\<close>

definition sample_count :: "host_math \<Rightarrow> int \<Rightarrow> int \<Rightarrow> int" where
  "sample_count host n q =
     \<lfloor>times_d host (real_of_int n) (math_log host (real_of_int q))\<rfloor>"

definition keygen_alpha :: "int \<Rightarrow> real" where
  "keygen_alpha n =
     (let denom = sqrt (real_of_int n) * (ln (real_of_int n))\<^sup>2 in 1 / denom)"

definition noise_scale :: "int \<Rightarrow> int \<Rightarrow> int" where
  "noise_scale n q = \<lfloor>keygen_alpha n * real_of_int q\<rfloor>"

fun keygen_loop ::
  "rng \<Rightarrow> nat \<Rightarrow> int \<Rightarrow> int \<Rightarrow> Vector \<Rightarrow> nat \<Rightarrow> PublicKeyElement list \<Rightarrow>
   (error + (PublicKeyElement list \<times> nat)) option" where
  "keygen_loop rand i n q secret 0 elems = Some (Inr (elems, i))"
| "keygen_loop rand i n q secret (Suc k) elems =
     (case sampleUniformVector rand i q n of
        Inl e \<Rightarrow> Some (Inl e)
      | Inr (vec, i1) \<Rightarrow>
          (case sampleNormal rand i1 (real_of_int (noise_scale n q)) of
             None \<Rightarrow> None
           | Some (Inl e) \<Rightarrow> Some (Inl e)
           | Some (Inr (noise, i2)) \<Rightarrow>
               (case dotProduct vec secret of
                  Inl e \<Rightarrow> Some (Inl e)
                | Inr d \<Rightarrow>
                    keygen_loop rand i2 n q secret k
                      (elems @ [\<lparr>vector = vec, scalar = mod_q (fl (d + noise)) q\<rparr>]))))"

definition keygen ::
  "host_math \<Rightarrow> rng \<Rightarrow> nat \<Rightarrow> int \<Rightarrow> int \<Rightarrow>
   (error + (SecretKey \<times> PublicKey \<times> nat)) option" where
  "keygen host rand i n q =
     (if n \<le> 1 then Some (Inl InvalidDimension)
      else if q < fl (n * n) then Some (Inl ModulusTooSmall)
      else if \<not> isPrime q then Some (Inl ModulusNotPrime)
      else
        (let m = sample_count host n q in
         case sampleUniformVector rand i q n of
           Inl e \<Rightarrow> Some (Inl e)
         | Inr (sv, i1) \<Rightarrow>
             (case keygen_loop rand i1 n q sv (nat m) [] of
                None \<Rightarrow> None
              | Some (Inl e) \<Rightarrow> Some (Inl e)
              | Some (Inr (elems, i2)) \<Rightarrow>
                  Some (Inr (\<lparr>sk_vector = sv, sk_n = n, sk_q = q\<rparr>,
                             \<lparr>elements = elems, pk_n = n, pk_q = q\<rparr>, i2)))))"

text \<open>
  \<^verbatim>\<open>encrypt\<close>. \<open>encrypt_loop\<close> is the loop over \<^verbatim>\<open>subset[1..]\<close>, which reduces the scalar
  at every step; \<open>encrypt_subset\<close> is everything after the subset (here \<open>chosen\<close>)
  has been selected, and
  \<open>encrypt\<close> the whole function.
\<close>

fun encrypt_loop :: "int \<Rightarrow> PublicKeyElement option list \<Rightarrow> Ciphertext \<Rightarrow> error + Ciphertext" where
  "encrypt_loop q [] res = Inr res"
| "encrypt_loop q (None # es) res = Inl UndefinedElement"
| "encrypt_loop q (Some e # es) res =
     (case sumVectors (vector res) (vector e) of
        Inl err \<Rightarrow> Inl err
      | Inr v \<Rightarrow>
          encrypt_loop q es \<lparr>vector = v, scalar = mod_q (fl (scalar res + scalar e)) q\<rparr>)"

definition encrypt_subset :: "int \<Rightarrow> int \<Rightarrow> PublicKeyElement option list \<Rightarrow> error + Ciphertext" where
  "encrypt_subset q message chosen =
     (case chosen of
        [] \<Rightarrow> Inl UndefinedElement
      | None # _ \<Rightarrow> Inl UndefinedElement
      | Some e0 # es \<Rightarrow>
          (case encrypt_loop q es \<lparr>vector = vector e0, scalar = scalar e0\<rparr> of
             Inl err \<Rightarrow> Inl err
           | Inr res \<Rightarrow>
               (let s1 = (if message = 1 then fl (scalar res + q div 2) else scalar res)
                in Inr \<lparr>vector = modVector (vector res) q, scalar = mod_q s1 q\<rparr>)))"

definition encrypt :: "rng \<Rightarrow> nat \<Rightarrow> PublicKey \<Rightarrow> int \<Rightarrow> error + (Ciphertext \<times> nat)" where
  "encrypt rand i publicKey message =
     (if message \<noteq> 0 \<and> message \<noteq> 1 then Inl InvalidMessage
      else (case chooseRandomSubset rand i (elements publicKey) of (chosen, j) \<Rightarrow>
              (case encrypt_subset (pk_q publicKey) message chosen of
                 Inl err \<Rightarrow> Inl err
               | Inr res \<Rightarrow> Inr (res, j))))"

text \<open>
  \<^verbatim>\<open>decrypt\<close>, with the source's own names for the intermediate values; each of its four
  differences is a difference of doubles.
\<close>

definition decrypt :: "SecretKey \<Rightarrow> Ciphertext \<Rightarrow> error + int" where
  "decrypt secret ciphertext =
     (case dotProduct (vector ciphertext) (sk_vector secret) of
        Inl err \<Rightarrow> Inl err
      | Inr d \<Rightarrow>
          (let res = mod_q (fl (scalar ciphertext - d)) (sk_q secret);
               half = sk_q secret div 2;
               q = sk_q secret;
               distToZero = min res (fl (q - res));
               distToHalf = min (mod_q (fl (res - half)) q) (mod_q (fl (half - res)) q)
           in Inr (if distToZero < distToHalf then 0 else 1)))"

section \<open>Notions of the specification\<close>

text \<open>
  The specification's circular distance on the ring of integers modulo \<open>q\<close>: the
  distance from \<open>x\<close> to 0 is \<open>min(x, q - x)\<close>, and the distance to another point \<open>c\<close> is
  the same with the gap \<open>|x - c|\<close> in the place of \<open>x\<close>.
\<close>

definition circ_dist :: "int \<Rightarrow> int \<Rightarrow> int \<Rightarrow> int" where
  "circ_dist q x c = min \<bar>x - c\<bar> (q - \<bar>x - c\<bar>)"

text \<open>
  The specification's ciphertext scalar: the sum of the selected scalars in full
  precision, plus \<open>floor(q / 2)\<close> for the bit 1, reduced once at the end by the
  mathematical modulo, whose value lies in \<open>[0, q)\<close>.
\<close>

definition spec_scalar :: "int \<Rightarrow> int \<Rightarrow> PublicKeyElement list \<Rightarrow> int" where
  "spec_scalar q message chosen =
     (sum_list (map scalar chosen) + (if message = 1 then q div 2 else 0)) mod q"

text \<open>
  The invariant of the data model for one public-key element (or ciphertext): its vector
  has length \<open>n\<close>, and its coordinates and its scalar lie in \<open>[0, q)\<close>.
\<close>

definition element_ok :: "int \<Rightarrow> int \<Rightarrow> PublicKeyElement \<Rightarrow> bool" where
  "element_ok n q e =
     (int (length (vector e)) = n
      \<and> (\<forall>x \<in> set (vector e). 0 \<le> x \<and> x < q)
      \<and> 0 \<le> scalar e \<and> scalar e < q)"

text \<open>
  The reference definition of primality: an integer above 1 that no integer strictly
  between 1 and itself divides.
\<close>

definition prime_ref :: "int \<Rightarrow> bool" where
  "prime_ref k = (1 < k \<and> (\<forall>d \<in> {2..<k}. \<not> d dvd k))"

section \<open>Rounding\<close>

text \<open>
  Every integer of magnitude up to \<open>2 ^ 53\<close> is a double, so rounding leaves it as it is;
  and rounding never turns a number that is not negative into a negative one.
\<close>

lemma ulp_of_small: "a < 2 ^ 53 \<Longrightarrow> ulp_of a = 1"
  by (subst ulp_of.simps) simp

lemma ulp_of_large: "\<not> a < 2 ^ 53 \<Longrightarrow> ulp_of a = 2 * ulp_of (a div 2)"
  by (subst ulp_of.simps) simp

lemma ulp_of_pos: "0 < ulp_of a"
proof (induction a rule: ulp_of.induct)
  case (1 a)
  show ?case
  proof (cases "a < 2 ^ 53")
    case True
    then show ?thesis by (simp add: ulp_of_small)
  next
    case False
    then show ?thesis using "1.IH" by (simp add: ulp_of_large)
  qed
qed

lemma fl_exact:
  assumes "\<bar>x\<bar> \<le> 2 ^ 53"
  shows "fl x = x"
proof (cases "\<bar>x\<bar> < 2 ^ 53")
  case True
  then have "ulp_of \<bar>x\<bar> = 1" by (rule ulp_of_small)
  then have "fl x = sgn x * \<bar>x\<bar>"
    by (simp add: fl_def Let_def)
  then show ?thesis by (simp add: mult_sgn_abs)
next
  case False
  then have a: "\<bar>x\<bar> = 2 ^ 53" using assms by linarith
  have "ulp_of (2 ^ 53) = 2"
    by (simp add: ulp_of_large ulp_of_small)
  then have "fl x = sgn x * \<bar>x\<bar>"
    by (simp add: fl_def Let_def a)
  then show ?thesis by (simp add: mult_sgn_abs)
qed

lemma fl_nonneg:
  assumes "0 \<le> x"
  shows "0 \<le> fl x"
proof -
  let ?u = "ulp_of \<bar>x\<bar>"
  let ?m = "\<bar>x\<bar> div ?u"
  have u: "0 < ?u" by (rule ulp_of_pos)
  then have m: "0 \<le> ?m"
    by (simp add: pos_imp_zdiv_nonneg_iff)
  have "0 \<le> sgn x" using assms by (simp add: sgn_if)
  moreover have "0 \<le> (if 2 * (\<bar>x\<bar> mod ?u) > ?u \<or> (2 * (\<bar>x\<bar> mod ?u) = ?u \<and> odd ?m) then ?m + 1 else ?m) * ?u"
    using u m by simp
  ultimately show ?thesis
    unfolding fl_def Let_def by (rule mult_nonneg_nonneg)
qed

section \<open>Modular reduction\<close>

text \<open>For a positive modulus, \<^verbatim>\<open>%\<close> agrees with \<open>mod\<close> on a dividend that is not negative.\<close>

lemma js_rem_nonneg: "0 \<le> a \<Longrightarrow> 0 < b \<Longrightarrow> js_rem a b = a mod b"
  by (cases "a = 0") (simp_all add: js_rem_def)

lemma js_rem_neg: "a < 0 \<Longrightarrow> 0 < b \<Longrightarrow> js_rem a b = - ((- a) mod b)"
  by (simp add: js_rem_def)

lemma js_rem_bounds:
  assumes "0 < b"
  shows "- b < js_rem a b" and "js_rem a b < b"
proof -
  have nn: "0 \<le> a \<Longrightarrow> 0 \<le> js_rem a b \<and> js_rem a b < b"
    using assms by (simp add: js_rem_nonneg)
  have ng: "a < 0 \<Longrightarrow> - b < js_rem a b \<and> js_rem a b \<le> 0"
    using assms by (simp add: js_rem_neg)
  show "- b < js_rem a b"
    using nn ng assms by (cases "0 \<le> a") linarith+
  show "js_rem a b < b"
    using nn ng assms by (cases "0 \<le> a") linarith+
qed

lemma js_rem_cong:
  assumes "0 < b"
  shows "js_rem a b mod b = a mod b"
proof (cases "0 \<le> a")
  case True
  then show ?thesis using assms by (simp add: js_rem_nonneg)
next
  case False
  then have "js_rem a b = - ((- a) mod b)"
    using assms by (simp add: js_rem_neg)
  then have "js_rem a b mod b = (- ((- a) mod b)) mod b"
    by (rule arg_cong)
  also have "\<dots> = (- (- a)) mod b"
    by (rule mod_minus_eq)
  finally show ?thesis by (simp only: minus_minus)
qed

text \<open>
  The sum \<^verbatim>\<open>(a % q) + q\<close> lies in \<open>(0, 2 q)\<close>. Rounded or not it is not negative, so
  the result lies in \<open>[0, q)\<close>; and for \<open>q \<le> 2 ^ 52\<close> the sum is exact, so the result is the
  residue of \<open>a\<close>.
\<close>

lemma mod_q_bounds:
  assumes "0 < q"
  shows "0 \<le> mod_q a q \<and> mod_q a q < q"
proof -
  have "0 \<le> js_rem a q + q"
    using js_rem_bounds(1) [OF assms, of a] by simp
  then have "0 \<le> fl (js_rem a q + q)"
    by (rule fl_nonneg)
  then have "mod_q a q = fl (js_rem a q + q) mod q"
    using assms by (simp add: mod_q_def js_rem_nonneg)
  then show ?thesis
    using assms by simp
qed

lemma mod_q_eq_mod:
  assumes "0 < q" and "q \<le> 2 ^ 52"
  shows "mod_q a q = a mod q"
proof -
  have lo: "0 \<le> js_rem a q + q"
    using js_rem_bounds(1) [OF assms(1), of a] by simp
  have "js_rem a q + q < 2 * q"
    using js_rem_bounds(2) [OF assms(1), of a] by simp
  then have "\<bar>js_rem a q + q\<bar> \<le> 2 ^ 53"
    using lo assms(2) by simp
  then have "fl (js_rem a q + q) = js_rem a q + q"
    by (rule fl_exact)
  then have "mod_q a q = (js_rem a q + q) mod q"
    using assms(1) lo by (simp add: mod_q_def js_rem_nonneg)
  also have "\<dots> = js_rem a q mod q"
    by simp
  finally show ?thesis
    using assms(1) by (simp add: js_rem_cong)
qed



section \<open>Vector operations\<close>

lemma length_modVector: "length (modVector a q) = length a"
  by (induction a) simp_all

lemma length_sumVectors_loop:
  "length a = length b \<Longrightarrow> length (sumVectors_loop a b) = length a"
  by (induction a b rule: sumVectors_loop.induct) simp_all

text \<open>
  The dot product is exact when the magnitudes of the products (and of the starting sum)
  add up to at most \<open>2 ^ 53\<close>: then no product and no partial sum is rounded.
\<close>

lemma dotProduct_loop_exact:
  "\<bar>acc\<bar> + (\<Sum>(x, y)\<leftarrow>zip a b. \<bar>x * y\<bar>) \<le> 2 ^ 53 \<Longrightarrow>
     dotProduct_loop a b acc = acc + (\<Sum>(x, y)\<leftarrow>zip a b. x * y)"
proof (induction a b acc rule: dotProduct_loop.induct)
  case (1 x xs y ys acc)
  let ?rest = "\<Sum>(x, y)\<leftarrow>zip xs ys. \<bar>x * y\<bar>"
  have rest: "0 \<le> ?rest"
    by (rule sum_list_nonneg) auto
  have b: "\<bar>acc\<bar> + \<bar>x * y\<bar> + ?rest \<le> 2 ^ 53"
    using "1.prems" by simp
  have "\<bar>x * y\<bar> \<le> 2 ^ 53"
    using b rest by linarith
  then have p: "fl (x * y) = x * y"
    by (rule fl_exact)
  have "\<bar>acc + x * y\<bar> \<le> \<bar>acc\<bar> + \<bar>x * y\<bar>"
    by (rule abs_triangle_ineq)
  then have s: "\<bar>acc + x * y\<bar> + ?rest \<le> 2 ^ 53"
    using b by linarith
  then have "\<bar>acc + x * y\<bar> \<le> 2 ^ 53"
    using rest by linarith
  then have e: "fl (acc + fl (x * y)) = acc + x * y"
    by (simp add: p fl_exact)
  have "\<bar>fl (acc + fl (x * y))\<bar> + ?rest \<le> 2 ^ 53"
    using s by (simp only: e)
  then have "dotProduct_loop xs ys (fl (acc + fl (x * y)))
               = fl (acc + fl (x * y)) + (\<Sum>(x, y)\<leftarrow>zip xs ys. x * y)"
    by (rule "1.IH")
  then show ?case
    by (simp add: e)
qed simp_all

text \<open>
  Claim C4, as amended. \<^verbatim>\<open>sumVectors\<close> and \<^verbatim>\<open>dotProduct\<close> reject two vectors of different
  lengths with the length-mismatch error. \<^verbatim>\<open>modVector\<close> takes one vector and a modulus:
  it has no second vector to compare with, makes no length check and returns a vector as
  long as its input, whatever the lengths involved.
\<close>

theorem length_checks:
  assumes "length a \<noteq> length b"
  shows "sumVectors a b = Inl LengthMismatch
       \<and> dotProduct a b = Inl LengthMismatch
       \<and> length (modVector a q) = length a
       \<and> length (modVector b q) = length b"
  using assms by (simp add: sumVectors_def dotProduct_def length_modVector)

theorem length_checks_witness:
  "length [1, 2 :: int] \<noteq> length [3 :: int]
   \<and> sumVectors [1, 2] [3] = Inl LengthMismatch
   \<and> dotProduct [1, 2] [3] = Inl LengthMismatch
   \<and> modVector [1, 2] 5 = [1, 2]"
proof -
  have h: "length [1, 2 :: int] \<noteq> length [3 :: int]" by simp
  have "modVector [1, 2] 5 = [1, 2]"
    by (simp add: mod_q_eq_mod)
  then show ?thesis
    using h length_checks [OF h, of 5] by blast
qed

text \<open>
  The claim C4 as stated fails for \<^verbatim>\<open>modVector\<close>: its second argument is the modulus,
  not a vector, and whatever the length of its input it returns a vector and no error.
\<close>

theorem modVector_counterexample:
  "modVector [1, 2, 3] 5 = [1, 2, 3]"
  by (simp add: mod_q_eq_mod)

section \<open>Decryption\<close>

text \<open>The gap between doubles is 2 from \<open>2 ^ 53\<close> and 4 from \<open>2 ^ 54\<close>.\<close>

lemma ulp_of_54: "2 ^ 53 \<le> a \<Longrightarrow> a < 2 ^ 54 \<Longrightarrow> ulp_of a = 2"
  by (subst ulp_of.simps) (simp add: ulp_of_small)

lemma ulp_of_55: "2 ^ 54 \<le> a \<Longrightarrow> a < 2 ^ 55 \<Longrightarrow> ulp_of a = 4"
  by (subst ulp_of.simps) (simp add: ulp_of_54)

lemma abs_sum_pairs:
  fixes zs :: "(int \<times> int) list"
  shows "\<bar>\<Sum>(x, y)\<leftarrow>zs. x * y\<bar> \<le> (\<Sum>(x, y)\<leftarrow>zs. \<bar>x * y\<bar>)"
proof (induction zs)
  case Nil
  then show ?case by simp
next
  case (Cons z zs)
  obtain x y where z: "z = (x, y)" by (cases z)
  have "\<bar>x * y + (\<Sum>(x, y)\<leftarrow>zs. x * y)\<bar> \<le> \<bar>x * y\<bar> + \<bar>\<Sum>(x, y)\<leftarrow>zs. x * y\<bar>"
    by (rule abs_triangle_ineq)
  then show ?case
    using Cons.IH by (simp add: z)
qed

text \<open>
  The two distances \<^verbatim>\<open>decrypt\<close> computes are the specification's circular distances
  from the reduced value to 0 and to \<open>floor(q / 2)\<close>, when \<open>q \<le> 2 ^ 52\<close>.
\<close>

lemma dist_zero_circ:
  assumes "0 \<le> r" and "r \<le> q" and "q \<le> 2 ^ 52"
  shows "min r (fl (q - r)) = circ_dist q r 0"
proof -
  have "\<bar>q - r\<bar> \<le> 2 ^ 53"
    using assms by simp
  then have "fl (q - r) = q - r"
    by (rule fl_exact)
  then show ?thesis
    using assms(1) by (simp add: circ_dist_def)
qed

lemma dist_half_circ:
  assumes "0 < q" "q \<le> 2 ^ 52" "0 \<le> r" "r < q" "0 \<le> h" "h < q"
  shows "min (mod_q (fl (r - h)) q) (mod_q (fl (h - r)) q) = circ_dist q r h"
proof -
  have "\<bar>r - h\<bar> \<le> 2 ^ 53" "\<bar>h - r\<bar> \<le> 2 ^ 53"
    using assms by simp_all
  then have ex: "fl (r - h) = r - h" "fl (h - r) = h - r"
    by (simp_all add: fl_exact)
  have md: "mod_q x q = x mod q" for x
    using assms(1,2) by (rule mod_q_eq_mod)
  consider "r = h" | "h < r" | "r < h" by linarith
  then show ?thesis
  proof cases
    case 1
    then show ?thesis using assms by (simp add: md fl_exact circ_dist_def)
  next
    case 2
    then have a: "(r - h) mod q = r - h"
      using assms by simp
    have "(h - r) mod q = (h - r + q) mod q"
      by simp
    also have "\<dots> = h - r + q"
      using 2 assms by (intro mod_pos_pos_trivial) linarith+
    finally have b: "(h - r) mod q = q - (r - h)"
      by simp
    have c: "\<bar>r - h\<bar> = r - h"
      using 2 by simp
    show ?thesis
      by (simp only: ex md a b c circ_dist_def)
  next
    case 3
    then have a: "(h - r) mod q = h - r"
      using assms by simp
    have "(r - h) mod q = (r - h + q) mod q"
      by simp
    also have "\<dots> = r - h + q"
      using 3 assms by (intro mod_pos_pos_trivial) linarith+
    finally have b: "(r - h) mod q = q - (h - r)"
      by simp
    have c: "\<bar>r - h\<bar> = h - r"
      using 3 by simp
    show ?thesis
      by (simp only: ex md a b c circ_dist_def min.commute)
  qed
qed

text \<open>
  Claim C1, as amended. For every secret key with a modulus \<open>0 < q \<le> 2 ^ 52\<close> and every
  ciphertext whose vector is as long as the secret vector, with
  \<open>|scalar| + \<Sum> |vector[i] * secret[i]| \<le> 2 ^ 53\<close> (so that every intermediate value of
  the computation is an integer that a double holds exactly), \<^verbatim>\<open>decrypt\<close> computes
  \<open>noisy = mod(scalar - dotProduct(vector, secret vector), q)\<close>, returns 0 if the circular
  distance from \<open>noisy\<close> to 0 is strictly less than the circular distance from \<open>noisy\<close> to
  \<open>floor(q / 2)\<close>, and returns 1 otherwise: an exact tie between the two distances yields 1.
\<close>

theorem decrypt_nearest_codeword:
  assumes "0 < sk_q secret" and "sk_q secret \<le> 2 ^ 52"
    and "length (vector ciphertext) = length (sk_vector secret)"
    and "\<bar>scalar ciphertext\<bar>
           + (\<Sum>(x, y)\<leftarrow>zip (vector ciphertext) (sk_vector secret). \<bar>x * y\<bar>) \<le> 2 ^ 53"
  shows "\<exists>d noisy.
           dotProduct (vector ciphertext) (sk_vector secret) = Inr d
         \<and> d = (\<Sum>(x, y)\<leftarrow>zip (vector ciphertext) (sk_vector secret). x * y)
         \<and> noisy = (scalar ciphertext - d) mod sk_q secret
         \<and> noisy = mod_q (fl (scalar ciphertext - d)) (sk_q secret)
         \<and> decrypt secret ciphertext =
             Inr (if circ_dist (sk_q secret) noisy 0
                       < circ_dist (sk_q secret) noisy (sk_q secret div 2)
                  then 0 else 1)"
proof -
  define q where "q = sk_q secret"
  define v where "v = vector ciphertext"
  define s where "s = sk_vector secret"
  define d where "d = dotProduct_loop v s 0"
  define noisy where "noisy = mod_q (fl (scalar ciphertext - d)) q"
  let ?mag = "\<Sum>(x, y)\<leftarrow>zip v s. \<bar>x * y\<bar>"
  have qpos: "0 < q" and qle: "q \<le> 2 ^ 52"
    using assms(1,2) by (simp_all add: q_def)
  have bound: "\<bar>scalar ciphertext\<bar> + ?mag \<le> 2 ^ 53"
    using assms(4) by (simp add: v_def s_def)
  have mag0: "0 \<le> ?mag"
    by (rule sum_list_nonneg) auto
  have dp: "dotProduct v s = Inr d"
    using assms(3) by (simp add: dotProduct_def d_def v_def s_def)
  have "\<bar>0::int\<bar> + ?mag \<le> 2 ^ 53"
    using bound by simp
  then have "d = 0 + (\<Sum>(x, y)\<leftarrow>zip v s. x * y)"
    unfolding d_def by (rule dotProduct_loop_exact)
  then have dsum: "d = (\<Sum>(x, y)\<leftarrow>zip v s. x * y)"
    by simp
  have "\<bar>d\<bar> \<le> ?mag"
    unfolding dsum by (rule abs_sum_pairs)
  then have "\<bar>scalar ciphertext - d\<bar> \<le> 2 ^ 53"
    using bound by linarith
  then have "fl (scalar ciphertext - d) = scalar ciphertext - d"
    by (rule fl_exact)
  then have nmod: "noisy = (scalar ciphertext - d) mod q"
    using qpos qle by (simp add: noisy_def mod_q_eq_mod)
  have nb: "0 \<le> noisy" "noisy < q"
    using qpos by (simp_all add: nmod)
  have hb: "0 \<le> q div 2" "q div 2 < q"
    using qpos by simp_all
  have z: "min noisy (fl (q - noisy)) = circ_dist q noisy 0"
    using nb qle by (intro dist_zero_circ) simp_all
  have h: "min (mod_q (fl (noisy - q div 2)) q) (mod_q (fl (q div 2 - noisy)) q)
             = circ_dist q noisy (q div 2)"
    using qpos qle nb hb by (rule dist_half_circ)
  have "decrypt secret ciphertext =
          Inr (if min noisy (fl (q - noisy))
                    < min (mod_q (fl (noisy - q div 2)) q) (mod_q (fl (q div 2 - noisy)) q)
               then 0 else 1)"
    using dp by (simp add: decrypt_def Let_def noisy_def q_def v_def s_def)
  then have "decrypt secret ciphertext =
          Inr (if circ_dist q noisy 0 < circ_dist q noisy (q div 2) then 0 else 1)"
    by (simp only: z h)
  then show ?thesis
    using dp dsum nmod noisy_def unfolding q_def v_def s_def by blast
qed

theorem decrypt_nearest_codeword_witness:
  "0 < sk_q \<lparr>sk_vector = [1, 2], sk_n = 2, sk_q = 5\<rparr>
   \<and> sk_q \<lparr>sk_vector = [1, 2], sk_n = 2, sk_q = 5\<rparr> \<le> 2 ^ 52
   \<and> length (vector \<lparr>vector = [3, 4], scalar = 3\<rparr>)
       = length (sk_vector \<lparr>sk_vector = [1, 2], sk_n = 2, sk_q = 5\<rparr>)
   \<and> decrypt \<lparr>sk_vector = [1, 2], sk_n = 2, sk_q = 5\<rparr> \<lparr>vector = [3, 4], scalar = 3\<rparr>
       = Inr (if circ_dist 5 2 0 < circ_dist 5 2 2 then 0 else 1)"
proof -
  let ?sk = "\<lparr>sk_vector = [1, 2], sk_n = 2, sk_q = 5\<rparr>"
  let ?ct = "\<lparr>vector = [3, 4], scalar = 3\<rparr>"
  have h1: "0 < sk_q ?sk" by simp
  have h2: "sk_q ?sk \<le> 2 ^ 52" by simp
  have h3: "length (vector ?ct) = length (sk_vector ?sk)" by simp
  have h4: "\<bar>scalar ?ct\<bar> + (\<Sum>(x, y)\<leftarrow>zip (vector ?ct) (sk_vector ?sk). \<bar>x * y\<bar>) \<le> 2 ^ 53"
    by simp
  from decrypt_nearest_codeword [OF h1 h2 h3 h4] obtain d noisy where
    "d = (\<Sum>(x, y)\<leftarrow>zip (vector ?ct) (sk_vector ?sk). x * y)"
    "noisy = (scalar ?ct - d) mod sk_q ?sk"
    "decrypt ?sk ?ct = Inr (if circ_dist (sk_q ?sk) noisy 0
                                 < circ_dist (sk_q ?sk) noisy (sk_q ?sk div 2) then 0 else 1)"
    by blast
  then have "decrypt ?sk ?ct = Inr (if circ_dist 5 2 0 < circ_dist 5 2 2 then 0 else 1)"
    by simp
  then show ?thesis
    using h1 h2 h3 by simp
qed

text \<open>
  The claim C1 as stated fails in two ways. At a tie it promises 0: with \<open>q = 5\<close> and
  \<open>noisy = 1\<close> both distances are 1 and \<^verbatim>\<open>decrypt\<close> returns 1. And it promises the exact
  residue for every key: with \<open>q = 100000007\<close> the second product and the difference are
  rounded, and \<^verbatim>\<open>decrypt\<close> returns 0 where the exact residue \<open>25000002\<close> is nearer to
  \<open>floor(q / 2)\<close>.
\<close>

theorem decrypt_tie_counterexample:
  "decrypt \<lparr>sk_vector = [1, 2], sk_n = 2, sk_q = 5\<rparr> \<lparr>vector = [3, 4], scalar = 2\<rparr> = Inr 1
   \<and> (2 - (3 * 1 + 4 * 2)) mod 5 = (1::int)
   \<and> \<not> circ_dist 5 1 (5 div 2) < circ_dist 5 1 0
   \<and> decrypt \<lparr>sk_vector = [100000006, 100000005], sk_n = 2, sk_q = 100000007\<rparr>
              \<lparr>vector = [100000004, 100000003], scalar = 25000013\<rparr> = Inr 0
   \<and> (25000013 - (100000004 * 100000006 + 100000003 * 100000005)) mod 100000007
        = (25000002::int)
   \<and> circ_dist 100000007 25000002 (100000007 div 2) < circ_dist 100000007 25000002 0"
proof -
  have a: "decrypt \<lparr>sk_vector = [1, 2], sk_n = 2, sk_q = 5\<rparr> \<lparr>vector = [3, 4], scalar = 2\<rparr>
             = Inr 1"
    by (simp add: decrypt_def dotProduct_def mod_q_eq_mod fl_exact)
  have r1: "fl 10000001000000024 = 10000001000000024"
    by (simp add: fl_def Let_def ulp_of_54)
  have r2: "fl 10000000800000015 = 10000000800000016"
    by (simp add: fl_def Let_def ulp_of_54)
  have r3: "fl 20000001800000040 = 20000001800000040"
    by (simp add: fl_def Let_def ulp_of_55)
  have r4: "fl (- 20000001775000027) = - 20000001775000028"
    by (simp add: fl_def Let_def ulp_of_55)
  have dp: "dotProduct [100000004, 100000003] [100000006, 100000005] = Inr 20000001800000040"
    by (simp add: dotProduct_def fl_exact r1 r2 r3)
  have b: "decrypt \<lparr>sk_vector = [100000006, 100000005], sk_n = 2, sk_q = 100000007\<rparr>
              \<lparr>vector = [100000004, 100000003], scalar = 25000013\<rparr> = Inr 0"
    by (simp add: decrypt_def dp r4 mod_q_eq_mod fl_exact)
  show ?thesis
    using a b by (simp add: circ_dist_def)
qed

section \<open>Encryption\<close>

text \<open>
  The loop of \<^verbatim>\<open>encrypt\<close> reduces the scalar at every step. When the scalars lie in
  \<open>[0, q)\<close> and \<open>q \<le> 2 ^ 52\<close>, every sum it forms is below \<open>2 q \<le> 2 ^ 53\<close> and so exact, and
  the result is the residue of the full sum. All vectors must have one length, or
  \<^verbatim>\<open>sumVectors\<close> throws.
\<close>

lemma encrypt_loop_scalar:
  assumes "0 < q" and "q \<le> 2 ^ 52"
    and "\<forall>e \<in> set es. length (vector e) = length (vector res)
                        \<and> 0 \<le> scalar e \<and> scalar e < q"
    and "0 \<le> scalar res" and "scalar res < q"
  shows "\<exists>r. encrypt_loop q (map Some es) res = Inr r
           \<and> length (vector r) = length (vector res)
           \<and> scalar r = (scalar res + sum_list (map scalar es)) mod q"
  using assms(3,4,5)
proof (induction es arbitrary: res)
  case Nil
  then show ?case by simp
next
  case (Cons e es)
  let ?res' = "\<lparr>vector = sumVectors_loop (vector res) (vector e),
                 scalar = mod_q (fl (scalar res + scalar e)) q\<rparr>"
  have len: "length (vector e) = length (vector res)"
    and e: "0 \<le> scalar e" "scalar e < q"
    using Cons.prems(1) by simp_all
  have sv: "sumVectors (vector res) (vector e) = Inr (sumVectors_loop (vector res) (vector e))"
    using len by (simp add: sumVectors_def)
  have len': "length (vector ?res') = length (vector res)"
    using len by (simp add: length_sumVectors_loop)
  have "\<bar>scalar res + scalar e\<bar> \<le> 2 ^ 53"
    using Cons.prems(2,3) e assms(2) by simp
  then have "fl (scalar res + scalar e) = scalar res + scalar e"
    by (rule fl_exact)
  then have sc: "scalar ?res' = (scalar res + scalar e) mod q"
    using assms(1,2) by (simp add: mod_q_eq_mod)
  have p1: "\<forall>x \<in> set es. length (vector x) = length (vector ?res')
                         \<and> 0 \<le> scalar x \<and> scalar x < q"
    using Cons.prems(1) len' by simp
  have p2: "0 \<le> scalar ?res'" and p3: "scalar ?res' < q"
    using mod_q_bounds [OF assms(1)] by simp_all
  from Cons.IH [OF p1 p2 p3] obtain r where
    r: "encrypt_loop q (map Some es) ?res' = Inr r"
       "length (vector r) = length (vector ?res')"
       "scalar r = (scalar ?res' + sum_list (map scalar es)) mod q"
    by blast
  have "scalar r = ((scalar res + scalar e) mod q + sum_list (map scalar es)) mod q"
    using r(3) by (simp only: sc)
  also have "\<dots> = (scalar res + sum_list (map scalar (e # es))) mod q"
    by (simp add: mod_add_left_eq add.assoc)
  finally have "scalar r = (scalar res + sum_list (map scalar (e # es))) mod q" .
  moreover have "encrypt_loop q (map Some (e # es)) res = Inr r"
    using sv r(1) by simp
  ultimately show ?case
    using r(2) len' by auto
qed

lemma encrypt_subset_scalar:
  assumes "0 < q" and "q \<le> 2 ^ 52" and "xs \<noteq> []"
    and "\<forall>e \<in> set xs. length (vector e) = len \<and> 0 \<le> scalar e \<and> scalar e < q"
  shows "\<exists>ct. encrypt_subset q message (map Some xs) = Inr ct
            \<and> scalar ct = spec_scalar q message xs"
proof -
  obtain e0 es where xs: "xs = e0 # es"
    using assms(3) by (cases xs) auto
  let ?r0 = "\<lparr>vector = vector e0, scalar = scalar e0\<rparr>"
  have p1: "\<forall>e \<in> set es. length (vector e) = length (vector ?r0)
                         \<and> 0 \<le> scalar e \<and> scalar e < q"
    using assms(4) xs by simp
  have p2: "0 \<le> scalar ?r0" and p3: "scalar ?r0 < q"
    using assms(4) xs by simp_all
  from encrypt_loop_scalar [OF assms(1,2) p1 p2 p3] obtain r where
    r: "encrypt_loop q (map Some es) ?r0 = Inr r"
       "scalar r = (scalar ?r0 + sum_list (map scalar es)) mod q"
    by blast
  have sum: "scalar r = sum_list (map scalar xs) mod q"
    using r(2) xs by simp
  then have rb: "0 \<le> scalar r" "scalar r < q"
    using assms(1) by simp_all
  have "\<bar>scalar r + q div 2\<bar> \<le> 2 ^ 53"
    using rb assms(1,2) by simp
  then have half: "fl (scalar r + q div 2) = scalar r + q div 2"
    by (rule fl_exact)
  let ?b = "if message = 1 then q div 2 else 0"
  let ?ct = "\<lparr>vector = modVector (vector r) q, scalar = (scalar r + ?b) mod q\<rparr>"
  have "encrypt_subset q message (map Some xs) = Inr ?ct"
    using r(1) xs assms(1,2) by (simp add: encrypt_subset_def Let_def half mod_q_eq_mod)
  moreover have "scalar ?ct = spec_scalar q message xs"
  proof -
    have "(scalar r + ?b) mod q = (sum_list (map scalar xs) mod q + ?b) mod q"
      by (simp only: sum)
    also have "\<dots> = (sum_list (map scalar xs) + ?b) mod q"
      by (simp only: mod_add_left_eq)
    finally show ?thesis
      by (simp add: spec_scalar_def)
  qed
  ultimately show ?thesis by blast
qed

text \<open>
  Claim C3, as amended. For every public key with \<open>0 < q \<le> 2 ^ 52\<close> whose elements keep the
  invariant of the data model (vectors of the key's length \<open>n\<close>, coordinates and scalars in
  \<open>[0, q)\<close>), every non-empty selection \<open>xs\<close> of its elements and every bit in \<open>{0, 1}\<close>,
  the code after the selection returns a ciphertext whose scalar is the full-precision
  sum of the selected scalars, plus \<open>floor(q / 2)\<close> when the bit is 1, reduced modulo \<open>q\<close>
  once at the end; and whenever \<^verbatim>\<open>chooseRandomSubset\<close> selects \<open>xs\<close>, that ciphertext is
  what \<^verbatim>\<open>encrypt\<close> returns. So the reduction at every step of the loop gives the same
  final scalar as the single final reduction of the specification.
\<close>

theorem encrypt_scalar_refines_spec:
  assumes "0 < pk_q publicKey" and "pk_q publicKey \<le> 2 ^ 52"
    and "\<forall>e \<in> set (elements publicKey). element_ok (pk_n publicKey) (pk_q publicKey) e"
    and "xs \<noteq> []" and "set xs \<subseteq> set (elements publicKey)"
    and "message = 0 \<or> message = 1"
  shows "\<exists>ct. encrypt_subset (pk_q publicKey) message (map Some xs) = Inr ct
            \<and> scalar ct = spec_scalar (pk_q publicKey) message xs
            \<and> (\<forall>rand i j. chooseRandomSubset rand i (elements publicKey) = (map Some xs, j)
                  \<longrightarrow> encrypt rand i publicKey message = Inr (ct, j))"
proof -
  have "\<forall>e \<in> set xs. length (vector e) = nat (pk_n publicKey)
                      \<and> 0 \<le> scalar e \<and> scalar e < pk_q publicKey"
    using assms(3,5) by (fastforce simp: element_ok_def)
  from encrypt_subset_scalar [OF assms(1,2,4) this] obtain ct where
    ct: "encrypt_subset (pk_q publicKey) message (map Some xs) = Inr ct"
        "scalar ct = spec_scalar (pk_q publicKey) message xs"
    by blast
  have "encrypt rand i publicKey message = Inr (ct, j)"
    if "chooseRandomSubset rand i (elements publicKey) = (map Some xs, j)" for rand i j
    using that ct(1) assms(6) by (auto simp: encrypt_def)
  then show ?thesis
    using ct by blast
qed

theorem encrypt_scalar_refines_spec_witness:
  "0 < pk_q \<lparr>elements = [\<lparr>vector = [1, 2], scalar = 3\<rparr>, \<lparr>vector = [0, 4], scalar = 4\<rparr>],
             pk_n = 2, pk_q = 5\<rparr>
   \<and> [\<lparr>vector = [1, 2], scalar = 3\<rparr>, \<lparr>vector = [0, 4], scalar = 4\<rparr>] \<noteq> []
   \<and> spec_scalar 5 1 [\<lparr>vector = [1, 2], scalar = 3\<rparr>, \<lparr>vector = [0, 4], scalar = 4\<rparr>] = 4
   \<and> (\<exists>ct. encrypt_subset 5 1
               [Some \<lparr>vector = [1, 2], scalar = 3\<rparr>, Some \<lparr>vector = [0, 4], scalar = 4\<rparr>] = Inr ct
            \<and> scalar ct = 4)"
proof -
  let ?e1 = "\<lparr>vector = [1, 2], scalar = 3\<rparr>"
  let ?e2 = "\<lparr>vector = [0, 4], scalar = 4\<rparr>"
  let ?pk = "\<lparr>elements = [?e1, ?e2], pk_n = 2, pk_q = 5\<rparr>"
  have h1: "0 < pk_q ?pk" by simp
  have h2: "pk_q ?pk \<le> 2 ^ 52" by simp
  have h3: "\<forall>e \<in> set (elements ?pk). element_ok (pk_n ?pk) (pk_q ?pk) e"
    by (simp add: element_ok_def)
  have h4: "[?e1, ?e2] \<noteq> []" by simp
  have h5: "set [?e1, ?e2] \<subseteq> set (elements ?pk)" by simp
  have h6: "(1::int) = 0 \<or> (1::int) = 1" by simp
  have s: "spec_scalar 5 1 [?e1, ?e2] = 4"
    by (simp add: spec_scalar_def)
  from encrypt_scalar_refines_spec [OF h1 h2 h3 h4 h5 h6] obtain ct where
    "encrypt_subset (pk_q ?pk) 1 (map Some [?e1, ?e2]) = Inr ct"
    "scalar ct = spec_scalar (pk_q ?pk) 1 [?e1, ?e2]"
    by blast
  then have "\<exists>ct. encrypt_subset 5 1 [Some ?e1, Some ?e2] = Inr ct \<and> scalar ct = 4"
    using s by simp
  then show ?thesis
    using s by simp
qed

text \<open>
  The claim C3 as stated, for every \<open>q > 0\<close>, fails once a sum of two scalars is rounded:
  with \<open>q = 9007199254740881\<close> and the scalars \<open>q - 1\<close> and \<open>q - 2\<close> the sum \<open>2 q - 3\<close> is
  rounded to \<open>2 q - 2\<close>, and the code returns \<open>q - 2\<close> where the full-precision sum
  reduces to \<open>q - 3\<close>.
\<close>

theorem encrypt_rounding_counterexample:
  "encrypt_subset 9007199254740881 0
     [Some \<lparr>vector = [0, 0], scalar = 9007199254740880\<rparr>,
      Some \<lparr>vector = [0, 0], scalar = 9007199254740879\<rparr>]
     = Inr \<lparr>vector = [0, 0], scalar = 9007199254740879\<rparr>
   \<and> spec_scalar 9007199254740881 0
        [\<lparr>vector = [0, 0], scalar = 9007199254740880\<rparr>, \<lparr>vector = [0, 0], scalar = 9007199254740879\<rparr>]
       = 9007199254740878"
proof -
  have r1: "fl 18014398509481759 = 18014398509481760"
    by (simp add: fl_def Let_def ulp_of_54)
  have r2: "fl 18014398509481760 = 18014398509481760"
    by (simp add: fl_def Let_def ulp_of_54)
  have m1: "mod_q 18014398509481760 9007199254740881 = 9007199254740879"
    by (simp add: mod_q_def js_rem_def r2)
  have m2: "mod_q 9007199254740879 9007199254740881 = 9007199254740879"
    by (simp add: mod_q_def js_rem_def r2)
  have m3: "mod_q 0 9007199254740881 = 0"
    by (simp add: mod_q_def js_rem_def fl_exact)
  have "encrypt_subset 9007199254740881 0
     [Some \<lparr>vector = [0, 0], scalar = 9007199254740880\<rparr>,
      Some \<lparr>vector = [0, 0], scalar = 9007199254740879\<rparr>]
     = Inr \<lparr>vector = [0, 0], scalar = 9007199254740879\<rparr>"
    by (simp add: encrypt_subset_def sumVectors_def fl_exact r1 m1 m2 m3)
  then show ?thesis
    by (simp add: spec_scalar_def)
qed

section \<open>Random subset selection\<close>

lemma chooseRandomSubset_loop_set:
  "set (fst (chooseRandomSubset_loop rand i xs res)) \<subseteq> set res \<union> set xs"
proof (induction xs arbitrary: i res)
  case Nil
  then show ?case by simp
next
  case (Cons x xs)
  show ?case
    using Cons.IH [of "Suc i" "if rand i < 1 / 2 then res @ [x] else res"]
    by (auto split: if_splits)
qed

lemma chooseRandomSubset_loop_none:
  "\<forall>k. \<not> rand k < 1 / 2 \<Longrightarrow> fst (chooseRandomSubset_loop rand i xs res) = res"
  by (induction xs arbitrary: i res) simp_all

lemma fallback_index_in_range:
  assumes "0 \<le> r" "r < 1" "items \<noteq> []"
  shows "\<exists>x \<in> set items. js_index items \<lfloor>r * real (length items)\<rfloor> = Some x"
proof -
  let ?k = "\<lfloor>r * real (length items)\<rfloor>"
  have len: "0 < real (length items)"
    using assms(3) by simp
  have "0 \<le> r * real (length items)"
    using assms(1) by simp
  then have lo: "0 \<le> ?k"
    by simp
  have "r * real (length items) < 1 * real (length items)"
    using assms(2) len by (intro mult_strict_right_mono)
  then have "?k < int (length items)"
    by (simp add: floor_less_iff)
  then have hi: "nat ?k < length items"
    using lo by linarith
  then have "items ! nat ?k \<in> set items"
    by simp
  then show ?thesis
    using lo hi by (auto simp: js_index_def)
qed

text \<open>
  Claim C8. For every non-empty input list (and draws in \<open>[0, 1)\<close>), the result of
  \<^verbatim>\<open>chooseRandomSubset\<close> is not empty and each of its elements is an element of the input.
  The pass that keeps each element on its own draw can keep nothing (it does when every
  draw is \<open>1/2\<close>); the fallback then returns exactly one element of the input.
\<close>

theorem chooseRandomSubset_nonempty:
  assumes "items \<noteq> []" and "unit_draws rand"
  shows "fst (chooseRandomSubset rand i items) \<noteq> []
       \<and> set (fst (chooseRandomSubset rand i items)) \<subseteq> Some ` set items
       \<and> (fst (chooseRandomSubset_loop rand i items []) = []
            \<longrightarrow> (\<exists>x \<in> set items. fst (chooseRandomSubset rand i items) = [Some x]))
       \<and> fst (chooseRandomSubset_loop (\<lambda>k. 1 / 2) i items []) = []"
proof -
  obtain res j where l: "chooseRandomSubset_loop rand i items [] = (res, j)"
    by (cases "chooseRandomSubset_loop rand i items []") 
  have sub: "set res \<subseteq> set items"
    using chooseRandomSubset_loop_set [of rand i items "[]"] l by simp
  have draw: "0 \<le> rand j" "rand j < 1"
    using assms(2) by (simp_all add: unit_draws_def)
  from fallback_index_in_range [OF draw assms(1)] obtain x where
    x: "x \<in> set items" "js_index items \<lfloor>rand j * real (length items)\<rfloor> = Some x"
    by blast
  have empty: "fst (chooseRandomSubset_loop (\<lambda>k. 1 / 2) i items []) = []"
    by (rule chooseRandomSubset_loop_none) simp
  show ?thesis
  proof (cases "res = []")
    case True
    then have "fst (chooseRandomSubset rand i items) = [Some x]"
      using l x(2) by (simp add: chooseRandomSubset_def Let_def)
    then show ?thesis
      using x(1) empty by auto
  next
    case False
    then have "fst (chooseRandomSubset rand i items) = map Some res"
      using l by (simp add: chooseRandomSubset_def)
    then show ?thesis
      using False sub l empty by auto
  qed
qed

theorem chooseRandomSubset_nonempty_witness:
  "[7, 8 :: int] \<noteq> [] \<and> unit_draws (\<lambda>k. 3 / 4)
   \<and> fst (chooseRandomSubset (\<lambda>k. 3 / 4) 0 [7, 8 :: int]) = [Some 8]"
proof -
  have h1: "[7, 8 :: int] \<noteq> []" by simp
  have h2: "unit_draws (\<lambda>k. 3 / 4)" by (simp add: unit_draws_def)
  have "fst (chooseRandomSubset (\<lambda>k. 3 / 4) 0 [7, 8 :: int]) = [Some 8]"
    by (simp add: chooseRandomSubset_def js_index_def)
  moreover note chooseRandomSubset_nonempty [OF h1 h2, of 0]
  ultimately show ?thesis
    using h1 h2 by blast
qed

section \<open>Primality\<close>

text \<open>
  For integers, \<^verbatim>\<open>i <= Math.sqrt(n)\<close> says \<open>i * i \<le> n\<close>, and \<^verbatim>\<open>n % i === 0\<close> says that
  \<open>i\<close> divides \<open>n\<close>.
\<close>

lemma le_sqrt_iff_sq:
  assumes "0 \<le> i"
  shows "(real_of_int i \<le> sqrt (real_of_int n)) = (i * i \<le> n)"
proof
  assume le: "real_of_int i \<le> sqrt (real_of_int n)"
  have "0 \<le> sqrt (real_of_int n)"
    using assms le by linarith
  then have nn: "0 \<le> real_of_int n"
    by simp
  have "(real_of_int i)\<^sup>2 \<le> (sqrt (real_of_int n))\<^sup>2"
    using assms le by (intro power_mono) simp_all
  then have "real_of_int (i * i) \<le> real_of_int n"
    using nn by (simp add: power2_eq_square)
  then show "i * i \<le> n"
    by (simp only: of_int_le_iff)
next
  assume "i * i \<le> n"
  then have "real_of_int (i * i) \<le> real_of_int n"
    by (simp only: of_int_le_iff)
  then have "(real_of_int i)\<^sup>2 \<le> real_of_int n"
    by (simp add: power2_eq_square)
  then show "real_of_int i \<le> sqrt (real_of_int n)"
    by (rule real_le_rsqrt)
qed

lemma js_rem_zero_iff:
  assumes "0 < b"
  shows "(js_rem a b = 0) = (b dvd a)"
proof (cases "0 \<le> a")
  case True
  then show ?thesis
    using assms by (simp add: js_rem_nonneg mod_eq_0_iff_dvd)
next
  case False
  then have "(js_rem a b = 0) = ((- a) mod b = 0)"
    using assms by (simp add: js_rem_neg)
  then show ?thesis
    by (simp add: mod_eq_0_iff_dvd)
qed

lemma isPrime_loop_step:
  assumes "0 \<le> i"
  shows "isPrime_loop n i =
           (if i * i \<le> n then (if js_rem n i = 0 then False else isPrime_loop n (i + 2))
            else True)"
  by (subst isPrime_loop.simps) (simp only: le_sqrt_iff_sq [OF assms])

text \<open>
  When nothing from 2 up to (and without) \<open>i\<close> divides \<open>n\<close> and \<open>i * i\<close> is beyond \<open>n\<close>, then
  \<open>n\<close> is prime: of two factors of \<open>n\<close> one is below \<open>i\<close>.
\<close>

lemma prime_ref_no_small_divisor:
  assumes "1 < n" and "n < i * i" and "0 \<le> i"
    and inv: "\<forall>d. 2 \<le> d \<and> d < i \<longrightarrow> \<not> d dvd n"
  shows "prime_ref n"
proof -
  have "\<not> d dvd n" if d: "2 \<le> d" "d < n" for d
  proof
    assume "d dvd n"
    then obtain e where e: "n = d * e" by (rule dvdE)
    have epos: "0 < e"
    proof (rule ccontr)
      assume "\<not> 0 < e"
      then have "d * e \<le> 0"
        using d(1) by (intro mult_nonneg_nonpos) simp_all
      then show False using e assms(1) by simp
    qed
    have e2: "2 \<le> e"
    proof (rule ccontr)
      assume "\<not> 2 \<le> e"
      then have "e = 1" using epos by linarith
      then show False using e d(2) by simp
    qed
    have "d < i \<or> e < i"
    proof (rule ccontr)
      assume "\<not> (d < i \<or> e < i)"
      then have "i \<le> d" "i \<le> e" by simp_all
      then have "i * i \<le> d * e"
        using assms(3) by (intro mult_mono) simp_all
      then show False using e assms(2) by simp
    qed
    moreover have "e dvd n" using e by simp
    ultimately show False
      using inv d(1) e2 \<open>d dvd n\<close> by blast
  qed
  then show ?thesis
    using assms(1) by (simp add: prime_ref_def)
qed

text \<open>
  The loop invariant: \<open>n\<close> and the candidate \<open>i\<close> are odd, and nothing from 2 up to (and
  without) \<open>i\<close> divides \<open>n\<close>. The even number \<open>i + 1\<close> that the loop skips cannot divide
  the odd \<open>n\<close>.
\<close>

lemma isPrime_loop_correct:
  assumes "3 \<le> i" and "odd i" and "odd n" and "3 \<le> n"
    and "\<forall>d. 2 \<le> d \<and> d < i \<longrightarrow> \<not> d dvd n"
  shows "isPrime_loop n i = prime_ref n"
  using assms
proof (induction n i rule: isPrime_loop.induct)
  case (1 n i)
  have ipos: "0 \<le> i" "0 < i" using "1.prems"(1) by simp_all
  show ?case
  proof (cases "i * i \<le> n")
    case sq: True
    show ?thesis
    proof (cases "i dvd n")
      case True
      have "i * 1 < i * i"
        using "1.prems"(1) by (intro mult_strict_left_mono) simp_all
      then have "i < n" using sq by simp
      then have "\<not> prime_ref n"
        using True "1.prems"(1) by (auto simp: prime_ref_def)
      moreover have "isPrime_loop n i = False"
        using sq True by (simp add: isPrime_loop_step [OF ipos(1)] js_rem_zero_iff [OF ipos(2)])
      ultimately show ?thesis by simp
    next
      case False
      have c1: "real_of_int i \<le> sqrt (real_of_int n)"
        using sq by (simp only: le_sqrt_iff_sq [OF ipos(1)])
      have c2: "js_rem n i \<noteq> 0"
        using False by (simp add: js_rem_zero_iff [OF ipos(2)])
      have inv': "\<forall>d. 2 \<le> d \<and> d < i + 2 \<longrightarrow> \<not> d dvd n"
      proof (intro allI impI)
        fix d assume d: "2 \<le> d \<and> d < i + 2"
        consider "d < i" | "d = i" | "d = i + 1" using d by linarith
        then show "\<not> d dvd n"
        proof cases
          case 1
          then show ?thesis using "1.prems"(5) d by blast
        next
          case 2
          then show ?thesis using False by simp
        next
          case 3
          then have "even d" using "1.prems"(2) by simp
          then show ?thesis using "1.prems"(3) by (meson dvd_trans)
        qed
      qed
      have "isPrime_loop n (i + 2) = prime_ref n"
        using "1.IH" [OF c1 c2 _ _ "1.prems"(3,4) inv'] "1.prems"(1,2) by simp
      moreover have "isPrime_loop n i = isPrime_loop n (i + 2)"
        using sq c2 by (simp add: isPrime_loop_step [OF ipos(1)])
      ultimately show ?thesis by simp
    qed
  next
    case False
    then have "prime_ref n"
      using "1.prems" by (intro prime_ref_no_small_divisor [of n i]) simp_all
    moreover have "isPrime_loop n i = True"
      using False by (simp add: isPrime_loop_step [OF ipos(1)])
    ultimately show ?thesis by simp
  qed
qed

lemma isPrime_correct: "isPrime n = prime_ref n"
proof -
  consider "n < 2" | "n = 2" | "2 < n" "2 dvd n" | "2 < n" "\<not> 2 dvd n" by linarith
  then show ?thesis
  proof cases
    case 1
    then show ?thesis by (simp add: isPrime_def prime_ref_def)
  next
    case 2
    then show ?thesis by (simp add: isPrime_def prime_ref_def)
  next
    case 3
    then have "\<not> prime_ref n" by (auto simp: prime_ref_def)
    moreover have "\<not> isPrime n"
      using 3 by (simp add: isPrime_def js_rem_zero_iff)
    ultimately show ?thesis by simp
  next
    case 4
    have "\<forall>d. 2 \<le> d \<and> d < 3 \<longrightarrow> \<not> d dvd n"
    proof (intro allI impI)
      fix d :: int assume "2 \<le> d \<and> d < 3"
      then have "d = 2" by linarith
      then show "\<not> d dvd n" using 4(2) by simp
    qed
    then have "isPrime_loop n 3 = prime_ref n"
      using 4 by (intro isPrime_loop_correct) simp_all
    then show ?thesis
      using 4 by (simp add: isPrime_def js_rem_zero_iff)
  qed
qed

lemma isPrime_97: "isPrime 97"
  by (simp add: isPrime_def isPrime_loop_step js_rem_def)

lemma isPrime_100: "\<not> isPrime 100"
  by (simp add: isPrime_def js_rem_def)

text \<open>
  Claim C9. \<^verbatim>\<open>isPrime(k)\<close> agrees with the reference definition of primality for every
  integer \<open>k\<close>, so for every \<open>k\<close> in \<open>[0, 10000]\<close>; it is false for every \<open>k < 2\<close>,
  \<^verbatim>\<open>isPrime(97)\<close> is true and \<^verbatim>\<open>isPrime(100)\<close> is false.
\<close>

theorem isPrime_agrees_with_reference:
  "isPrime k = prime_ref k
   \<and> (k < 2 \<longrightarrow> \<not> isPrime k)
   \<and> isPrime 97 \<and> \<not> isPrime 100"
proof -
  have "k < 2 \<longrightarrow> \<not> isPrime k"
    by (simp add: isPrime_def)
  then show ?thesis
    using isPrime_correct [of k] isPrime_97 isPrime_100 by blast
qed

theorem isPrime_agrees_with_reference_witness:
  "isPrime 7919 = prime_ref 7919 \<and> isPrime 7919 \<and> \<not> isPrime 1"
proof -
  have "isPrime 7919"
    by (simp add: isPrime_def isPrime_loop_step js_rem_def)
  moreover have "(1::int) < 2" by simp
  ultimately show ?thesis
    using isPrime_agrees_with_reference [of 7919] isPrime_agrees_with_reference [of 1]
    by blast
qed

section \<open>Prime search\<close>













section \<open>Key generation\<close>

text \<open>
  The noise parameter. For \<open>s \<ge> 1\<close> the polynomial \<open>s\<^sup>3 - 4 (s - 1)\<^sup>2\<close> is positive, and
  \<open>ln x \<le> 2 (sqrt x - 1)\<close>; so \<open>sqrt x * (ln x)\<^sup>2 \<le> x\<^sup>2\<close> for \<open>x \<ge> 1\<close>, and the denominator of
  \<open>alpha\<close> is at most \<open>n\<^sup>2 \<le> q\<close>.
\<close>

lemma cubic_bound:
  fixes s :: real
  assumes "1 \<le> s"
  shows "4 * (s - 1)\<^sup>2 \<le> s ^ 3"
proof -
  define A where "A = s ^ 3"
  define B where "B = (s - 1)\<^sup>2"
  define C where "C = (s - 1) * (2 * s - 3)\<^sup>2"
  have "4 * A = 16 * B + C + 11 * (s - 1) + 4"
    by (simp add: A_def B_def C_def power2_eq_square power3_eq_cube algebra_simps)
  moreover have "0 \<le> C"
    unfolding C_def using assms by (intro mult_nonneg_nonneg) simp_all
  ultimately have "4 * B \<le> A"
    using assms by argo
  then show ?thesis
    by (simp only: A_def B_def)
qed

lemma ln_sq_bound:
  fixes x :: real
  assumes "1 \<le> x"
  shows "sqrt x * (ln x)\<^sup>2 \<le> x\<^sup>2"
proof -
  define s where "s = sqrt x"
  have s1: "1 \<le> s" using assms by (simp add: s_def)
  have xs: "x = s\<^sup>2" using assms by (simp add: s_def)
  have "ln x = 2 * ln s"
    using s1 by (simp add: xs ln_realpow)
  moreover have "ln s \<le> s - 1"
    using s1 by (intro ln_le_minus_one) simp
  moreover have "0 \<le> ln s"
    using s1 by simp
  ultimately have l: "0 \<le> ln x" "ln x \<le> 2 * (s - 1)"
    by simp_all
  have "(ln x)\<^sup>2 \<le> (2 * (s - 1))\<^sup>2"
    using l by (intro power_mono) simp_all
  moreover have "(2 * (s - 1))\<^sup>2 = 4 * (s - 1)\<^sup>2"
    by (simp add: power2_eq_square algebra_simps)
  ultimately have "(ln x)\<^sup>2 \<le> 4 * (s - 1)\<^sup>2"
    by (simp only:)
  also have "\<dots> \<le> s ^ 3"
    using s1 by (rule cubic_bound)
  finally have "s * (ln x)\<^sup>2 \<le> s * s ^ 3"
    using s1 by (intro mult_left_mono) simp_all
  also have "\<dots> = x\<^sup>2"
    by (simp add: xs power2_eq_square power3_eq_cube)
  finally show ?thesis by (simp add: s_def)
qed

lemma noise_scale_ge_1:
  assumes "1 < n" and "n * n \<le> q"
  shows "1 \<le> noise_scale n q"
proof -
  define x where "x = real_of_int n"
  define denom where "denom = sqrt x * (ln x)\<^sup>2"
  have x2: "2 \<le> x" using assms(1) by (simp add: x_def)
  have "0 < ln x" using x2 by simp
  then have dpos: "0 < denom"
    using x2 by (simp add: denom_def)
  have "denom \<le> x\<^sup>2"
    unfolding denom_def using x2 by (intro ln_sq_bound) simp
  also have "x\<^sup>2 = real_of_int (n * n)"
    by (simp add: x_def power2_eq_square)
  also have "\<dots> \<le> real_of_int q"
    using assms(2) by (simp only: of_int_le_iff)
  finally have "denom \<le> real_of_int q" .
  then have "1 \<le> real_of_int q / denom"
    using dpos by (simp add: le_divide_eq)
  then have "1 \<le> keygen_alpha n * real_of_int q"
    by (simp add: keygen_alpha_def Let_def denom_def x_def)
  then show ?thesis
    by (simp add: noise_scale_def le_floor_iff)
qed

text \<open>
  The rejection loop returns as soon as some round is accepted, so on a fair random
  source \<^verbatim>\<open>sampleNormal\<close> returns; and with a positive parameter it never throws.
\<close>

lemma sampleNormal_loop_returns:
  "accepted rand (i + 2 * k) \<Longrightarrow> \<exists>r. sampleNormal_loop rand i = Some r"
proof (induction k arbitrary: i)
  case 0
  then show ?case
    by (subst sampleNormal_loop.simps) (auto simp: accepted_def Let_def)
next
  case (Suc k)
  have "accepted rand ((i + 2) + 2 * k)"
    using Suc.prems by (simp add: add.commute add.left_commute)
  then obtain r where r: "sampleNormal_loop rand (i + 2) = Some r"
    using Suc.IH by blast
  show ?case
  proof (cases "accepted rand i")
    case True
    then show ?thesis
      by (subst sampleNormal_loop.simps) (auto simp: accepted_def Let_def)
  next
    case False
    then have "sampleNormal_loop rand i = sampleNormal_loop rand (i + 2)"
      by (subst sampleNormal_loop.simps) (auto simp: accepted_def Let_def)
    then show ?thesis using r by (simp only:) blast
  qed
qed

lemma sampleNormal_returns:
  assumes "fair_draws rand" and "0 < s"
  shows "\<exists>noise j. sampleNormal rand i s = Some (Inr (noise, j))"
proof -
  obtain k where "accepted rand (i + 2 * k)"
    using assms(1) by (auto simp: fair_draws_def)
  from sampleNormal_loop_returns [OF this] obtain u s_val j where
    "sampleNormal_loop rand i = Some (u, s_val, j)"
    by (metis prod_cases3)
  then show ?thesis
    using assms(2) by (simp add: sampleNormal_def Let_def)
qed

lemma sampleNormal_no_error:
  assumes "0 < s"
  shows "sampleNormal rand i s \<noteq> Some (Inl e)"
  using assms by (simp add: sampleNormal_def Let_def split: option.splits prod.splits)

text \<open>
  \<^verbatim>\<open>sampleUniformVector\<close> with \<open>q > 0\<close> and \<open>n > 0\<close> returns \<open>n\<close> values after \<open>n\<close> draws, each
  in \<open>[0, q)\<close> when the draws are in \<open>[0, 1)\<close>.
\<close>

lemma sampleUniformVector_loop_result:
  assumes "0 < q"
  shows "\<exists>new. sampleUniformVector_loop rand i q k result = Inr (result @ new, i + k)
             \<and> length new = k
             \<and> (unit_draws rand \<longrightarrow> (\<forall>x \<in> set new. 0 \<le> x \<and> x < q))"
proof (induction k arbitrary: i result)
  case 0
  then show ?case by simp
next
  case (Suc k)
  let ?x = "\<lfloor>rand i * real_of_int q\<rfloor>"
  have su: "sampleUniform rand i q = Inr (?x, Suc i)"
    using assms by (simp add: sampleUniform_def)
  obtain new where new:
    "sampleUniformVector_loop rand (Suc i) q k (result @ [?x]) = Inr ((result @ [?x]) @ new, Suc i + k)"
    "length new = k"
    "unit_draws rand \<longrightarrow> (\<forall>x \<in> set new. 0 \<le> x \<and> x < q)"
    using Suc.IH [of "Suc i" "result @ [?x]"] by blast
  have rng: "0 \<le> ?x \<and> ?x < q" if "unit_draws rand"
  proof -
    have r: "0 \<le> rand i" "rand i < 1"
      using that by (simp_all add: unit_draws_def)
    have "0 \<le> rand i * real_of_int q"
      using r(1) assms by simp
    moreover have "rand i * real_of_int q < 1 * real_of_int q"
      using r(2) assms by (intro mult_strict_right_mono) simp_all
    ultimately show ?thesis
      by (simp add: floor_less_iff)
  qed
  have "sampleUniformVector_loop rand i q (Suc k) result = Inr (result @ (?x # new), i + Suc k)"
    using su new(1) by simp
  moreover have "length (?x # new) = Suc k"
    using new(2) by simp
  moreover have "unit_draws rand \<longrightarrow> (\<forall>x \<in> set (?x # new). 0 \<le> x \<and> x < q)"
    using new(3) rng by auto
  ultimately show ?case by blast
qed

lemma sampleUniformVector_result:
  assumes "0 < q" and "0 < n"
  shows "\<exists>vec. sampleUniformVector rand i q n = Inr (vec, i + nat n)
             \<and> int (length vec) = n
             \<and> (unit_draws rand \<longrightarrow> (\<forall>x \<in> set vec. 0 \<le> x \<and> x < q))"
proof -
  obtain new where
    "sampleUniformVector_loop rand i q (nat n) [] = Inr ([] @ new, i + nat n)"
    "length new = nat n"
    "unit_draws rand \<longrightarrow> (\<forall>x \<in> set new. 0 \<le> x \<and> x < q)"
    using sampleUniformVector_loop_result [OF assms(1), of rand i "nat n" "[]"] by blast
  then show ?thesis
    using assms(2) by (auto simp: sampleUniformVector_def)
qed

text \<open>
  Large values. From \<open>2 ^ 53\<close> on the gap between doubles is even, so every double there
  is even, and rounding does not take a value from there to below \<open>2 ^ 53\<close>. A prime that a
  double holds is therefore below \<open>2 ^ 53\<close>.
\<close>

lemma ulp_of_even: "2 ^ 53 \<le> a \<Longrightarrow> even (ulp_of a)"
  by (simp add: ulp_of_large)

lemma ulp_of_below:
  "2 ^ 53 \<le> a \<Longrightarrow> 2 ^ 52 * ulp_of a \<le> a"
proof (induction a rule: ulp_of.induct)
  case (1 a)
  have u: "ulp_of a = 2 * ulp_of (a div 2)"
    using "1.prems" by (simp add: ulp_of_large)
  show ?case
  proof (cases "a div 2 < 2 ^ 53")
    case True
    then have "ulp_of (a div 2) = 1" by (rule ulp_of_small)
    then show ?thesis using u "1.prems" by simp
  next
    case False
    then have "2 ^ 52 * ulp_of (a div 2) \<le> a div 2"
      using "1.IH" "1.prems" by simp
    then have "2 * (2 ^ 52 * ulp_of (a div 2)) \<le> 2 * (a div 2)"
      by simp
    also have "2 * (a div 2) \<le> a"
      by simp
    finally show ?thesis by (simp add: u)
  qed
qed

lemma fl_large:
  assumes "2 ^ 53 \<le> x"
  shows "2 ^ 53 \<le> fl x"
proof -
  let ?u = "ulp_of \<bar>x\<bar>"
  let ?m = "\<bar>x\<bar> div ?u"
  let ?m' = "if 2 * (\<bar>x\<bar> mod ?u) > ?u \<or> (2 * (\<bar>x\<bar> mod ?u) = ?u \<and> odd ?m) then ?m + 1 else ?m"
  have ax: "\<bar>x\<bar> = x" and xp: "sgn x = 1"
    using assms by simp_all
  have u0: "0 < ?u" by (rule ulp_of_pos)
  have "2 ^ 52 * ?u \<le> \<bar>x\<bar>"
    using assms by (intro ulp_of_below) simp
  then have "(2 ^ 52 * ?u) div ?u \<le> ?m"
    using u0 by (intro zdiv_mono1)
  then have "2 ^ 52 \<le> ?m"
    using u0 by simp
  then have m': "2 ^ 52 \<le> ?m'"
    by simp
  have "even ?u"
    using assms by (intro ulp_of_even) simp
  then have "2 \<le> ?u"
    using u0 by (auto elim!: evenE)
  then have "2 ^ 52 * 2 \<le> ?m' * ?u"
    using m' by (intro mult_mono) simp_all
  then have "2 ^ 53 \<le> ?m' * ?u"
    by simp
  then show ?thesis
    unfolding fl_def Let_def xp by simp
qed

lemma double_even:
  assumes "fl q = q" and "2 ^ 53 \<le> q"
  shows "even q"
proof -
  have "even (ulp_of \<bar>q\<bar>)"
    using assms(2) by (intro ulp_of_even) simp
  then have "even (fl q)"
    unfolding fl_def Let_def by simp
  then show ?thesis
    by (simp only: assms(1))
qed

lemma prime_ref_odd:
  assumes "prime_ref q" and "2 < q"
  shows "odd q"
proof
  assume "even q"
  then have "2 dvd q" by simp
  moreover have "(2::int) \<in> {2..<q}" using assms(2) by simp
  ultimately show False
    using assms(1) by (auto simp: prime_ref_def)
qed

lemma prime_double_small:
  assumes "prime_ref q" and "fl q = q"
  shows "q < 2 ^ 53"
proof (rule ccontr)
  assume "\<not> q < 2 ^ 53"
  then have big: "2 ^ 53 \<le> q" by simp
  then have "even q"
    using assms(2) by (intro double_even)
  moreover have "odd q"
    using assms(1) big by (intro prime_ref_odd) simp_all
  ultimately show False by simp
qed

text \<open>
  The loop that builds the public samples never throws when both vectors it multiplies
  have length \<open>n\<close> and the noise parameter is at least 1; on a fair random source it
  returns \<open>k\<close> new elements, each within the invariant when the draws are in \<open>[0, 1)\<close>.
\<close>

lemma keygen_loop_no_error:
  assumes "0 < n" and "0 < q" and "1 \<le> noise_scale n q" and "int (length secret) = n"
  shows "keygen_loop rand i n q secret k elems \<noteq> Some (Inl e)"
proof (induction k arbitrary: i elems)
  case 0
  then show ?case by simp
next
  case (Suc k)
  obtain vec where vec: "sampleUniformVector rand i q n = Inr (vec, i + nat n)"
    "int (length vec) = n"
    using sampleUniformVector_result [OF assms(2,1), of rand i] by blast
  have dp: "dotProduct vec secret = Inr (dotProduct_loop vec secret 0)"
    using vec(2) assms(4) by (simp add: dotProduct_def)
  have spos: "0 < real_of_int (noise_scale n q)"
    using assms(3) by simp
  show ?case
  proof (cases "sampleNormal rand (i + nat n) (real_of_int (noise_scale n q))")
    case None
    then show ?thesis using vec(1) by simp
  next
    case (Some r)
    show ?thesis
    proof (cases r)
      case (Inl e')
      then show ?thesis
        using Some sampleNormal_no_error [OF spos] by blast
    next
      case (Inr p)
      obtain noise j where "p = (noise, j)" by (cases p)
      then show ?thesis
        using vec(1) Some Inr dp Suc.IH by simp
    qed
  qed
qed

lemma keygen_loop_result:
  assumes "0 < n" and "0 < q" and "1 \<le> noise_scale n q" and "int (length secret) = n"
    and "fair_draws rand"
  shows "\<exists>new j. keygen_loop rand i n q secret k elems = Some (Inr (elems @ new, j))
               \<and> length new = k
               \<and> (unit_draws rand \<longrightarrow> (\<forall>e \<in> set new. element_ok n q e))"
proof (induction k arbitrary: i elems)
  case 0
  then show ?case by simp
next
  case (Suc k)
  obtain vec where vec: "sampleUniformVector rand i q n = Inr (vec, i + nat n)"
    "int (length vec) = n"
    "unit_draws rand \<longrightarrow> (\<forall>x \<in> set vec. 0 \<le> x \<and> x < q)"
    using sampleUniformVector_result [OF assms(2,1), of rand i] by blast
  have dp: "dotProduct vec secret = Inr (dotProduct_loop vec secret 0)"
    using vec(2) assms(4) by (simp add: dotProduct_def)
  have spos: "0 < real_of_int (noise_scale n q)"
    using assms(3) by simp
  obtain noise i2 where
    sn: "sampleNormal rand (i + nat n) (real_of_int (noise_scale n q)) = Some (Inr (noise, i2))"
    using sampleNormal_returns [OF assms(5) spos] by blast
  let ?e = "\<lparr>vector = vec, scalar = mod_q (fl (dotProduct_loop vec secret 0 + noise)) q\<rparr>"
  obtain new j where new:
    "keygen_loop rand i2 n q secret k (elems @ [?e]) = Some (Inr ((elems @ [?e]) @ new, j))"
    "length new = k"
    "unit_draws rand \<longrightarrow> (\<forall>e \<in> set new. element_ok n q e)"
    using Suc.IH [of i2 "elems @ [?e]"] by blast
  have "keygen_loop rand i n q secret (Suc k) elems = Some (Inr (elems @ (?e # new), j))"
    using vec(1) sn dp new(1) by simp
  moreover have "length (?e # new) = Suc k"
    using new(2) by simp
  moreover have "unit_draws rand \<longrightarrow> (\<forall>e \<in> set (?e # new). element_ok n q e)"
  proof
    assume u: "unit_draws rand"
    have "element_ok n q ?e"
      using vec(2,3) u mod_q_bounds [OF assms(2)] by (simp add: element_ok_def)
    then show "\<forall>e \<in> set (?e # new). element_ok n q e"
      using new(3) u by simp
  qed
  ultimately show ?case by blast
qed

lemma exact_count_nonneg:
  assumes "1 < n" and "n * n \<le> q"
  shows "0 \<le> \<lfloor>real_of_int n * ln (real_of_int q)\<rfloor>"
proof -
  have "1 * 1 < n * n"
    using assms(1) by (intro mult_strict_mono) simp_all
  then have "1 \<le> real_of_int q"
    using assms(2) by simp
  then have "0 \<le> ln (real_of_int q)"
    by simp
  then have "0 \<le> real_of_int n * ln (real_of_int q)"
    using assms(1) by simp
  then show ?thesis by simp
qed

lemma q_pos:
  assumes "1 < n" and "n * n \<le> q"
  shows "0 < (q::int)"
proof -
  have "0 < n * n" using assms(1) by simp
  then show ?thesis using assms(2) by linarith
qed

text \<open>
  Past its three checks, \<^verbatim>\<open>keygen\<close> raises nothing. The second check compares \<open>q\<close> with
  the rounded product \<^verbatim>\<open>n * n\<close>, which is the exact square when that is at most \<open>2 ^ 53\<close>.
\<close>

lemma keygen_past_checks:
  assumes "1 < n" and "n * n \<le> q" and "prime_ref q" and "\<not> q < fl (n * n)"
  shows "keygen host rand i n q \<noteq> Some (Inl e)"
proof -
  have n0: "0 < n" and q0: "0 < q"
    using assms(1,2) q_pos [of n q] by simp_all
  have ns: "1 \<le> noise_scale n q"
    using assms(1,2) by (rule noise_scale_ge_1)
  obtain sv where sv: "sampleUniformVector rand i q n = Inr (sv, i + nat n)"
    "int (length sv) = n"
    using sampleUniformVector_result [OF q0 n0, of rand i] by blast
  let ?m = "nat (sample_count host n q)"
  have "keygen_loop rand (i + nat n) n q sv ?m [] \<noteq> Some (Inl e)"
    using n0 q0 ns sv(2) by (rule keygen_loop_no_error)
  then show ?thesis
    using assms sv(1)
    by (auto simp: keygen_def isPrime_correct Let_def split: option.splits sum.splits)
qed

lemma square_exact:
  assumes "n * n \<le> 2 ^ 53"
  shows "fl (n * n) = n * n"
proof -
  have "0 \<le> n * n" by simp
  then have "\<bar>n * n\<bar> \<le> 2 ^ 53"
    using assms by simp
  then show ?thesis by (rule fl_exact)
qed

lemma keygen_valid_no_error:
  assumes "1 < n" and "n * n \<le> 2 ^ 53" and "n * n \<le> q" and "prime_ref q"
  shows "keygen host rand i n q \<noteq> Some (Inl e)"
proof -
  have "\<not> q < fl (n * n)"
    using assms(2,3) by (simp add: square_exact)
  with assms(1,3,4) show ?thesis
    by (rule keygen_past_checks)
qed

lemma keygen_never_std:
  assumes "1 < n" and "n * n \<le> q" and "prime_ref q"
  shows "keygen host rand i n q \<noteq> Some (Inl StdNotPositive)"
proof (cases "q < fl (n * n)")
  case True
  then have "keygen host rand i n q = Some (Inl ModulusTooSmall)"
    using assms(1) by (simp add: keygen_def)
  then show ?thesis by simp
next
  case False
  with assms show ?thesis
    by (rule keygen_past_checks)
qed

text \<open>
  Concrete inputs: two moduli, a random source whose every draw is \<open>3/4\<close>, and (in the
  theorems below) a host with the exact logarithm and product.
\<close>

lemma prime_ref_5: "prime_ref 5"
proof -
  have "isPrime 5"
    by (simp add: isPrime_def isPrime_loop_step js_rem_def)
  then show ?thesis using isPrime_correct [of 5] by blast
qed

lemma not_prime_ref_6: "\<not> prime_ref 6"
proof -
  have "\<not> isPrime 6"
    by (simp add: isPrime_def js_rem_def)
  then show ?thesis using isPrime_correct [of 6] by blast
qed

lemma unit_draws_const: "unit_draws (\<lambda>k. 3 / 4)"
  by (simp add: unit_draws_def)

lemma fair_draws_const: "fair_draws (\<lambda>k. 3 / 4)"
  by (simp add: fair_draws_def accepted_def Let_def)

lemma fl_5: "fl 5 = 5"
  by (rule fl_exact) simp

text \<open>
  When \<open>q\<close> is a double, \<^verbatim>\<open>keygen\<close> fails exactly on the three conditions, also where the
  product \<^verbatim>\<open>n * n\<close> is rounded: a \<open>q\<close> between the rounded and the exact square is at
  least \<open>2 ^ 53\<close>, so even, so not prime.
\<close>

lemma keygen_fails_iff:
  assumes "fl q = q"
  shows "(\<exists>e. keygen host rand i n q = Some (Inl e)) = (n \<le> 1 \<or> q < n * n \<or> \<not> prime_ref q)"
proof (cases "n \<le> 1")
  case True
  then have "keygen host rand i n q = Some (Inl InvalidDimension)"
    by (simp add: keygen_def)
  then show ?thesis using True by simp
next
  case False
  then have n1: "1 < n" by simp
  show ?thesis
  proof (cases "n * n \<le> q \<and> prime_ref q")
    case True
    then have "q < 2 ^ 53"
      using assms by (intro prime_double_small) simp_all
    then have "n * n \<le> 2 ^ 53"
      using True by linarith
    then have "keygen host rand i n q \<noteq> Some (Inl e)" for e
      using n1 True by (intro keygen_valid_no_error) simp_all
    then show ?thesis using n1 True by auto
  next
    case rhs: False
    have "\<exists>e. keygen host rand i n q = Some (Inl e)"
    proof (cases "q < fl (n * n)")
      case True
      then show ?thesis using n1 by (simp add: keygen_def)
    next
      case nsmall: False
      show ?thesis
      proof (cases "isPrime q")
        case False
        then show ?thesis using n1 nsmall by (simp add: keygen_def)
      next
        case True
        then have p: "prime_ref q" by (simp only: isPrime_correct)
        then have q53: "q < 2 ^ 53"
          using assms by (intro prime_double_small)
        have lt: "q < n * n" using rhs p by simp
        have "fl (n * n) \<le> q" using nsmall by simp
        moreover have "q < fl (n * n)"
        proof (cases "n * n \<le> 2 ^ 53")
          case True
          then show ?thesis using lt by (simp add: square_exact)
        next
          case False
          then have "2 ^ 53 \<le> fl (n * n)"
            by (intro fl_large) simp
          then show ?thesis using q53 by linarith
        qed
        ultimately show ?thesis by simp
      qed
    qed
    then show ?thesis using rhs n1 by auto
  qed
qed

text \<open>
  Claim C6, as amended. For every \<open>n\<close> and every \<open>q\<close> that a double holds, \<^verbatim>\<open>keygen(n, q)\<close>
  fails exactly when \<open>n \<le> 1\<close>, or \<open>q < n * n\<close>, or \<open>q\<close> is not prime; when none of the three
  conditions is violated, it raises no error at all, whatever the random source and the
  host. The checks run in this order and each has an error of its own, the three being
  distinct: InvalidDimension for \<open>n \<le> 1\<close>, and, for every \<open>n > 1\<close> whose square is at most
  \<open>2 ^ 53\<close> (so that the product \<^verbatim>\<open>n * n\<close> is exact), ModulusTooSmall for \<open>q < n * n\<close> and
  ModulusNotPrime for a \<open>q \<ge> n * n\<close> that is not prime.
\<close>

theorem keygen_parameter_errors:
  "(n \<le> 1 \<longrightarrow> keygen host rand i n q = Some (Inl InvalidDimension))
   \<and> (1 < n \<and> n * n \<le> 2 ^ 53 \<and> q < n * n
        \<longrightarrow> keygen host rand i n q = Some (Inl ModulusTooSmall))
   \<and> (1 < n \<and> n * n \<le> 2 ^ 53 \<and> n * n \<le> q \<and> \<not> prime_ref q
        \<longrightarrow> keygen host rand i n q = Some (Inl ModulusNotPrime))
   \<and> (fl q = q \<and> 1 < n \<and> n * n \<le> q \<and> prime_ref q
        \<longrightarrow> (\<forall>e. keygen host rand i n q \<noteq> Some (Inl e)))
   \<and> (fl q = q
        \<longrightarrow> ((\<exists>e. keygen host rand i n q = Some (Inl e))
               = (n \<le> 1 \<or> q < n * n \<or> \<not> prime_ref q)))
   \<and> InvalidDimension \<noteq> ModulusTooSmall
   \<and> InvalidDimension \<noteq> ModulusNotPrime
   \<and> ModulusTooSmall \<noteq> ModulusNotPrime"
proof -
  have a: "n \<le> 1 \<longrightarrow> keygen host rand i n q = Some (Inl InvalidDimension)"
    by (simp add: keygen_def)
  have b: "1 < n \<and> n * n \<le> 2 ^ 53 \<and> q < n * n
             \<longrightarrow> keygen host rand i n q = Some (Inl ModulusTooSmall)"
    by (simp add: keygen_def square_exact)
  have c: "1 < n \<and> n * n \<le> 2 ^ 53 \<and> n * n \<le> q \<and> \<not> prime_ref q
             \<longrightarrow> keygen host rand i n q = Some (Inl ModulusNotPrime)"
    by (simp add: keygen_def isPrime_correct square_exact)
  have e: "fl q = q \<longrightarrow> ((\<exists>e. keygen host rand i n q = Some (Inl e))
               = (n \<le> 1 \<or> q < n * n \<or> \<not> prime_ref q))"
    by (simp add: keygen_fails_iff)
  have d: "fl q = q \<and> 1 < n \<and> n * n \<le> q \<and> prime_ref q
             \<longrightarrow> (\<forall>e. keygen host rand i n q \<noteq> Some (Inl e))"
    using e by auto
  show ?thesis
    using a b c d e by simp
qed

theorem keygen_parameter_errors_witness:
  "keygen \<lparr>math_log = ln, times_d = (*)\<rparr> (\<lambda>k. 3 / 4) 0 1 5 = Some (Inl InvalidDimension)
   \<and> (3::int) * 3 \<le> 2 ^ 53 \<and> (2::int) * 2 \<le> 2 ^ 53 \<and> fl 5 = 5
   \<and> keygen \<lparr>math_log = ln, times_d = (*)\<rparr> (\<lambda>k. 3 / 4) 0 3 5 = Some (Inl ModulusTooSmall)
   \<and> keygen \<lparr>math_log = ln, times_d = (*)\<rparr> (\<lambda>k. 3 / 4) 0 2 6 = Some (Inl ModulusNotPrime)
   \<and> prime_ref 5
   \<and> keygen \<lparr>math_log = ln, times_d = (*)\<rparr> (\<lambda>k. 3 / 4) 0 2 5 \<noteq> Some (Inl ModulusNotPrime)"
proof -
  let ?h = "\<lparr>math_log = ln, times_d = (*)\<rparr>"
  note t = keygen_parameter_errors [where host = ?h and rand = "\<lambda>k. 3 / 4" and i = 0]
  have "keygen ?h (\<lambda>k. 3 / 4) 0 1 5 = Some (Inl InvalidDimension)"
    using t [where n = 1 and q = 5] by simp
  moreover have "keygen ?h (\<lambda>k. 3 / 4) 0 3 5 = Some (Inl ModulusTooSmall)"
    using t [where n = 3 and q = 5] by simp
  moreover have "keygen ?h (\<lambda>k. 3 / 4) 0 2 6 = Some (Inl ModulusNotPrime)"
    using t [where n = 2 and q = 6] not_prime_ref_6 by simp
  moreover have "keygen ?h (\<lambda>k. 3 / 4) 0 2 5 \<noteq> Some (Inl ModulusNotPrime)"
    using t [where n = 2 and q = 5] prime_ref_5 fl_5 by simp
  ultimately show ?thesis
    using prime_ref_5 fl_5 by simp
qed

text \<open>
  The claim C6 as stated, with ModulusTooSmall for \<open>q < n * n\<close> whatever \<open>n\<close>, fails where
  the product \<^verbatim>\<open>n * n\<close> is rounded: for \<open>n = 94906267\<close> and \<open>q = n * n - 1\<close> the product is
  rounded to \<open>q\<close>, the check \<^verbatim>\<open>q < n * n\<close> passes, and the error is ModulusNotPrime.
\<close>

theorem keygen_rounded_square_counterexample:
  "(1::int) < 94906267
   \<and> (9007199515875288::int) < 94906267 * 94906267
   \<and> keygen \<lparr>math_log = ln, times_d = (*)\<rparr> (\<lambda>k. 3 / 4) 0 94906267 9007199515875288
       = Some (Inl ModulusNotPrime)"
proof -
  have r: "fl 9007199515875289 = 9007199515875288"
    by (simp add: fl_def Let_def ulp_of_54)
  have "\<not> isPrime 9007199515875288"
    by (simp add: isPrime_def js_rem_def)
  then have "keygen \<lparr>math_log = ln, times_d = (*)\<rparr> (\<lambda>k. 3 / 4) 0 94906267 9007199515875288
       = Some (Inl ModulusNotPrime)"
    by (simp add: keygen_def r)
  then show ?thesis by simp
qed

text \<open>
  Claim C10. For every \<open>n > 1\<close> and prime \<open>q \<ge> n * n\<close>, the noise parameter that \<^verbatim>\<open>keygen\<close>
  passes to \<^verbatim>\<open>sampleNormal\<close>, \<open>floor(q / (sqrt(n) * ln(n)\<^sup>2))\<close>, is at least 1; so that call
  never takes the branch for a standard deviation \<open>\<le> 0\<close>, and \<^verbatim>\<open>keygen\<close> never fails with
  that error.
\<close>

theorem noise_scale_positive:
  assumes "1 < n" and "n * n \<le> q" and "prime_ref q"
  shows "1 \<le> noise_scale n q
       \<and> noise_scale n q
           = \<lfloor>real_of_int q / (sqrt (real_of_int n) * (ln (real_of_int n))\<^sup>2)\<rfloor>
       \<and> sampleNormal rand i (real_of_int (noise_scale n q)) \<noteq> Some (Inl StdNotPositive)
       \<and> keygen host rand i n q \<noteq> Some (Inl StdNotPositive)"
proof -
  have ns: "1 \<le> noise_scale n q"
    using assms(1,2) by (rule noise_scale_ge_1)
  then have "0 < real_of_int (noise_scale n q)"
    by simp
  then have "sampleNormal rand i (real_of_int (noise_scale n q)) \<noteq> Some (Inl StdNotPositive)"
    by (rule sampleNormal_no_error)
  moreover have "noise_scale n q
      = \<lfloor>real_of_int q / (sqrt (real_of_int n) * (ln (real_of_int n))\<^sup>2)\<rfloor>"
    by (simp add: noise_scale_def keygen_alpha_def Let_def)
  moreover have "keygen host rand i n q \<noteq> Some (Inl StdNotPositive)"
    using assms by (rule keygen_never_std)
  ultimately show ?thesis
    using ns by simp
qed

theorem noise_scale_positive_witness:
  "(1::int) < 2 \<and> (2::int) * 2 \<le> 5 \<and> prime_ref 5
   \<and> 1 \<le> noise_scale 2 5
   \<and> keygen \<lparr>math_log = ln, times_d = (*)\<rparr> (\<lambda>k. 3 / 4) 0 2 5 \<noteq> Some (Inl StdNotPositive)"
proof -
  have h1: "(1::int) < 2" by simp
  have h2: "(2::int) * 2 \<le> 5" by simp
  show ?thesis
    using noise_scale_positive
            [OF h1 h2 prime_ref_5, of "\<lambda>k. 3 / 4" 0 "\<lparr>math_log = ln, times_d = (*)\<rparr>"]
          h1 h2 prime_ref_5
    by blast
qed

text \<open>
  Claim C2, as amended. For every \<open>n > 1\<close> and prime \<open>q \<ge> n * n\<close> that a double holds, on a
  random source with draws in \<open>[0, 1)\<close> on which the rejection loop of the sampler always
  ends, \<^verbatim>\<open>keygen(n, q)\<close> returns a secret key whose vector has length \<open>n\<close> and coordinates
  in \<open>[0, q)\<close>, and a public key with exactly \<open>m\<close> elements, each with a vector of length
  \<open>n\<close> with coordinates in \<open>[0, q)\<close> and a scalar in \<open>[0, q)\<close>. Here \<open>m\<close> is
  \<^verbatim>\<open>Math.floor(n * Math.log(q))\<close> as the host computes it in doubles (a count below
  \<open>2 ^ 53\<close>, which the loop counter reaches); it is \<open>floor(n * ln(q))\<close> whenever the host's
  logarithm and product do not carry the value across an integer.
\<close>

theorem keygen_shape:
  assumes "1 < n" and "n * n \<le> q" and "prime_ref q" and "fl q = q"
    and "unit_draws rand" and "fair_draws rand"
    and "sample_count host n q < 2 ^ 53"
  shows "\<exists>secret publicKey j.
           keygen host rand i n q = Some (Inr (secret, publicKey, j))
         \<and> int (length (sk_vector secret)) = n
         \<and> (\<forall>x \<in> set (sk_vector secret). 0 \<le> x \<and> x < q)
         \<and> sk_n secret = n \<and> sk_q secret = q
         \<and> pk_n publicKey = n \<and> pk_q publicKey = q
         \<and> length (elements publicKey) = nat (sample_count host n q)
         \<and> (sample_count host n q = \<lfloor>real_of_int n * ln (real_of_int q)\<rfloor>
              \<longrightarrow> int (length (elements publicKey)) = \<lfloor>real_of_int n * ln (real_of_int q)\<rfloor>)
         \<and> (\<forall>e \<in> set (elements publicKey). element_ok n q e)"
proof -
  have n0: "0 < n" and q0: "0 < q"
    using assms(1,2) q_pos [of n q] by simp_all
  have ns: "1 \<le> noise_scale n q"
    using assms(1,2) by (rule noise_scale_ge_1)
  have m0: "0 \<le> \<lfloor>real_of_int n * ln (real_of_int q)\<rfloor>"
    using assms(1,2) by (rule exact_count_nonneg)
  have "q < 2 ^ 53"
    using assms(3,4) by (rule prime_double_small)
  then have "n * n \<le> 2 ^ 53"
    using assms(2) by linarith
  then have sq: "\<not> q < fl (n * n)"
    using assms(2) by (simp add: square_exact)
  let ?m = "nat (sample_count host n q)"
  obtain sv where sv: "sampleUniformVector rand i q n = Inr (sv, i + nat n)"
    "int (length sv) = n"
    "unit_draws rand \<longrightarrow> (\<forall>x \<in> set sv. 0 \<le> x \<and> x < q)"
    using sampleUniformVector_result [OF q0 n0, of rand i] by blast
  obtain new j where new:
    "keygen_loop rand (i + nat n) n q sv ?m [] = Some (Inr ([] @ new, j))"
    "length new = ?m"
    "unit_draws rand \<longrightarrow> (\<forall>e \<in> set new. element_ok n q e)"
    using keygen_loop_result [OF n0 q0 ns sv(2) assms(6), of "i + nat n" ?m "[]"] by blast
  let ?sk = "\<lparr>sk_vector = sv, sk_n = n, sk_q = q\<rparr>"
  let ?pk = "\<lparr>elements = new, pk_n = n, pk_q = q\<rparr>"
  have "keygen host rand i n q = Some (Inr (?sk, ?pk, j))"
    using assms(1,3) sq sv(1) new(1) by (simp add: keygen_def isPrime_correct Let_def)
  moreover have "length (elements ?pk) = ?m"
    using new(2) by simp
  moreover have "sample_count host n q = \<lfloor>real_of_int n * ln (real_of_int q)\<rfloor>
              \<longrightarrow> int (length (elements ?pk)) = \<lfloor>real_of_int n * ln (real_of_int q)\<rfloor>"
    using new(2) m0 by simp
  moreover have "\<forall>x \<in> set (sk_vector ?sk). 0 \<le> x \<and> x < q"
    using sv(3) assms(5) by simp
  moreover have "\<forall>e \<in> set (elements ?pk). element_ok n q e"
    using new(3) assms(5) by simp
  moreover have "int (length (sk_vector ?sk)) = n"
    using sv(2) by simp
  ultimately show ?thesis
    by (intro exI [of _ ?sk] exI [of _ ?pk] exI [of _ j]) simp
qed

theorem keygen_shape_witness:
  "(1::int) < 2 \<and> (2::int) * 2 \<le> 5 \<and> prime_ref 5 \<and> fl 5 = 5
   \<and> unit_draws (\<lambda>k. 3 / 4) \<and> fair_draws (\<lambda>k. 3 / 4)
   \<and> sample_count \<lparr>math_log = ln, times_d = (*)\<rparr> 2 5 = \<lfloor>2 * ln (5::real)\<rfloor>
   \<and> (\<exists>secret publicKey j.
         keygen \<lparr>math_log = ln, times_d = (*)\<rparr> (\<lambda>k. 3 / 4) 0 2 5
           = Some (Inr (secret, publicKey, j))
       \<and> int (length (sk_vector secret)) = 2
       \<and> int (length (elements publicKey)) = \<lfloor>2 * ln (5::real)\<rfloor>)"
proof -
  let ?h = "\<lparr>math_log = ln, times_d = (*)\<rparr>"
  have h1: "(1::int) < 2" by simp
  have h2: "(2::int) * 2 \<le> 5" by simp
  have h3: "fl 5 = 5" by (rule fl_5)
  have sc: "sample_count ?h 2 5 = \<lfloor>2 * ln (5::real)\<rfloor>"
    by (simp add: sample_count_def)
  have "ln (5::real) < 5"
    by (rule ln_less_self) simp
  then have "2 * ln (5::real) < 10"
    by simp
  also have "(10::real) < 2 ^ 53"
    by simp
  finally have "2 * ln (5::real) < 2 ^ 53" .
  then have h4: "sample_count ?h 2 5 < 2 ^ 53"
    unfolding sc by (simp add: floor_less_iff)
  from keygen_shape [OF h1 h2 prime_ref_5 h3 unit_draws_const fair_draws_const h4, of 0]
  obtain secret publicKey j where
    "keygen ?h (\<lambda>k. 3 / 4) 0 2 5 = Some (Inr (secret, publicKey, j))"
    "int (length (sk_vector secret)) = 2"
    "sample_count ?h 2 5 = \<lfloor>real_of_int 2 * ln (real_of_int 5)\<rfloor>
       \<longrightarrow> int (length (elements publicKey)) = \<lfloor>real_of_int 2 * ln (real_of_int 5)\<rfloor>"
    by blast
  then have "\<exists>secret publicKey j.
         keygen ?h (\<lambda>k. 3 / 4) 0 2 5 = Some (Inr (secret, publicKey, j))
       \<and> int (length (sk_vector secret)) = 2
       \<and> int (length (elements publicKey)) = \<lfloor>2 * ln (5::real)\<rfloor>"
    using sc by auto
  then show ?thesis
    using h1 h2 h3 sc prime_ref_5 unit_draws_const fair_draws_const by blast
qed

text \<open>
  The claim C2 as stated has \<open>m = floor(n * ln(q))\<close> for every \<open>n\<close> and \<open>q\<close>. For \<open>n = 2\<close> and
  the prime \<open>q = 7108019154642233\<close> the logarithm is \<open>36.5 - 1.55e-15\<close>, which
  \<^verbatim>\<open>Math.log\<close> returns as the double \<open>36.5\<close>; the code then computes \<open>m = 73\<close>, and by the
  theorem above the public key has 73 elements, while \<open>floor(2 * ln(q))\<close> is below 73.

  That \<open>2 * ln(q) < 73\<close> says \<open>q\<^sup>2 < exp(73)\<close>. The lower bound for \<open>exp(73)\<close> starts from
  \<open>1 + x + x\<^sup>2 / 2 \<le> exp(x)\<close> at \<open>x = 73 / 2 ^ 37\<close> and squares 37 times, each square rounded
  down to a multiple of \<open>2 ^ -100\<close>.
\<close>

lemma exp_square_step:
  fixes y y' :: real
  assumes "real_of_int a / 2 ^ 100 \<le> exp y" and "0 \<le> a"
    and "b * 2 ^ 100 \<le> a * a" and "y' = 2 * y"
  shows "real_of_int b / 2 ^ 100 \<le> exp y'"
proof -
  have "0 \<le> real_of_int a / 2 ^ 100"
    using assms(2) by simp
  then have "(real_of_int a / 2 ^ 100)\<^sup>2 \<le> (exp y)\<^sup>2"
    using assms(1) by (intro power_mono) simp_all
  also have "(exp y)\<^sup>2 = exp y'"
    by (simp add: assms(4) exp_double)
  finally have sq: "(real_of_int a / 2 ^ 100)\<^sup>2 \<le> exp y'" .
  have "real_of_int (b * 2 ^ 100) \<le> real_of_int (a * a)"
    using assms(3) by (simp only: of_int_le_iff)
  then have "real_of_int b * 2 ^ 100 \<le> real_of_int a * real_of_int a"
    by simp
  then have "real_of_int b * 2 ^ 100 / (2 ^ 100 * 2 ^ 100)
               \<le> real_of_int a * real_of_int a / (2 ^ 100 * 2 ^ 100)"
    by (intro divide_right_mono) simp_all
  then have "real_of_int b / 2 ^ 100 \<le> (real_of_int a / 2 ^ 100)\<^sup>2"
    by (simp add: power2_eq_square)
  then show ?thesis
    using sq by linarith
qed

lemma exp_73_lower: "real_of_int 64046698180087863997509450719920748558728357416257476778206176 / 2 ^ 100 \<le> exp 73"
proof -
  have "(0::real) \<le> 73 / 2 ^ 37"
    by simp
  then have "1 + 73 / 2 ^ 37 + (73 / 2 ^ 37)\<^sup>2 / 2 \<le> exp (73 / 2 ^ 37 :: real)"
    by (rule exp_lower_Taylor_quadratic)
  moreover have "real_of_int 1267650600901535560365913407488 / 2 ^ 100 \<le> 1 + 73 / 2 ^ 37 + (73 / 2 ^ 37)\<^sup>2 / (2::real)"
    by (simp add: power2_eq_square field_simps)
  ultimately have s37: "real_of_int 1267650600901535560365913407488 / 2 ^ 100 \<le> exp (73 / 2 ^ 37)"
    by linarith
  have s36: "real_of_int 1267650601574841719592746746045 / 2 ^ 100 \<le> exp (73 / 2 ^ 36)"
    by (rule exp_square_step [OF s37]) simp_all
  have s35: "real_of_int 1267650602921454039119282833257 / 2 ^ 100 \<le> exp (73 / 2 ^ 35)"
    by (rule exp_square_step [OF s36]) simp_all
  have s34: "real_of_int 1267650605614678682463832653390 / 2 ^ 100 \<le> exp (73 / 2 ^ 34)"
    by (rule exp_square_step [OF s35]) simp_all
  have s33: "real_of_int 1267650611001127986318842919042 / 2 ^ 100 \<le> exp (73 / 2 ^ 33)"
    by (rule exp_square_step [OF s34]) simp_all
  have s32: "real_of_int 1267650621774026662692506292278 / 2 ^ 100 \<le> exp (73 / 2 ^ 32)"
    by (rule exp_square_step [OF s33]) simp_all
  have s31: "real_of_int 1267650643319824290094407129596 / 2 ^ 100 \<le> exp (73 / 2 ^ 31)"
    by (rule exp_square_step [OF s32]) simp_all
  have s30: "real_of_int 1267650686411420643516526952568 / 2 ^ 100 \<le> exp (73 / 2 ^ 30)"
    by (rule exp_square_step [OF s31]) simp_all
  have s29: "real_of_int 1267650772594617744834213471487 / 2 ^ 100 \<le> exp (73 / 2 ^ 29)"
    by (rule exp_square_step [OF s30]) simp_all
  have s28: "real_of_int 1267650944961029525364768238330 / 2 ^ 100 \<le> exp (73 / 2 ^ 28)"
    by (rule exp_square_step [OF s29]) simp_all
  have s27: "real_of_int 1267651289693923398017758586304 / 2 ^ 100 \<le> exp (73 / 2 ^ 27)"
    by (rule exp_square_step [OF s28]) simp_all
  have s26: "real_of_int 1267651979159992389780493748293 / 2 ^ 100 \<le> exp (73 / 2 ^ 26)"
    by (rule exp_square_step [OF s27]) simp_all
  have s25: "real_of_int 1267653358093255359846831971554 / 2 ^ 100 \<le> exp (73 / 2 ^ 25)"
    by (rule exp_square_step [OF s26]) simp_all
  have s24: "real_of_int 1267656115964281251853786120027 / 2 ^ 100 \<le> exp (73 / 2 ^ 24)"
    by (rule exp_square_step [OF s25]) simp_all
  have s23: "real_of_int 1267661631724332889051347245355 / 2 ^ 100 \<le> exp (73 / 2 ^ 23)"
    by (rule exp_square_step [OF s24]) simp_all
  have s22: "real_of_int 1267672663316435941674907891882 / 2 ^ 100 \<le> exp (73 / 2 ^ 22)"
    by (rule exp_square_step [OF s23]) simp_all
  have s21: "real_of_int 1267694726788644083810254271376 / 2 ^ 100 \<le> exp (73 / 2 ^ 21)"
    by (rule exp_square_step [OF s22]) simp_all
  have s20: "real_of_int 1267738854885091907811302055363 / 2 ^ 100 \<le> exp (73 / 2 ^ 20)"
    by (rule exp_square_step [OF s21]) simp_all
  have s19: "real_of_int 1267827115686300858261542396690 / 2 ^ 100 \<le> exp (73 / 2 ^ 19)"
    by (rule exp_square_step [OF s20]) simp_all
  have s18: "real_of_int 1268003655723469214887067628698 / 2 ^ 100 \<le> exp (73 / 2 ^ 18)"
    by (rule exp_square_step [OF s19]) simp_all
  have s17: "real_of_int 1268356809548787282165436076142 / 2 ^ 100 \<le> exp (73 / 2 ^ 17)"
    by (rule exp_square_step [OF s18]) simp_all
  have s16: "real_of_int 1269063412299210105927473299315 / 2 ^ 100 \<le> exp (73 / 2 ^ 16)"
    by (rule exp_square_step [OF s17]) simp_all
  have s15: "real_of_int 1270477798966493253174775839396 / 2 ^ 100 \<le> exp (73 / 2 ^ 15)"
    by (rule exp_square_step [OF s16]) simp_all
  have s14: "real_of_int 1273311303111549955844823767124 / 2 ^ 100 \<le> exp (73 / 2 ^ 14)"
    by (rule exp_square_step [OF s15]) simp_all
  have s13: "real_of_int 1278997283904357134090239854347 / 2 ^ 100 \<le> exp (73 / 2 ^ 13)"
    by (rule exp_square_step [OF s14]) simp_all
  have s12: "real_of_int 1290445531237239278146248174349 / 2 ^ 100 \<le> exp (73 / 2 ^ 12)"
    by (rule exp_square_step [OF s13]) simp_all
  have s11: "real_of_int 1313650361377454527159267695868 / 2 ^ 100 \<le> exp (73 / 2 ^ 11)"
    by (rule exp_square_step [OF s12]) simp_all
  have s10: "real_of_int 1361319334867528777904162520743 / 2 ^ 100 \<le> exp (73 / 2 ^ 10)"
    by (rule exp_square_step [OF s11]) simp_all
  have s9: "real_of_int 1461909402441430032152118618205 / 2 ^ 100 \<le> exp (73 / 2 ^ 9)"
    by (rule exp_square_step [OF s10]) simp_all
  have s8: "real_of_int 1685937040192209612970134058132 / 2 ^ 100 \<le> exp (73 / 2 ^ 8)"
    by (rule exp_square_step [OF s9]) simp_all
  have s7: "real_of_int 2242245381322204943972619497481 / 2 ^ 100 \<le> exp (73 / 2 ^ 7)"
    by (rule exp_square_step [OF s8]) simp_all
  have s6: "real_of_int 3966127850336341315405117545935 / 2 ^ 100 \<le> exp (73 / 2 ^ 6)"
    by (rule exp_square_step [OF s7]) simp_all
  have s5: "real_of_int 12408916244256491724716171532521 / 2 ^ 100 \<le> exp (73 / 2 ^ 5)"
    by (rule exp_square_step [OF s6]) simp_all
  have s4: "real_of_int 121469750678341230381114768724116 / 2 ^ 100 \<le> exp (73 / 2 ^ 4)"
    by (rule exp_square_step [OF s5]) simp_all
  have s3: "real_of_int 11639564030657887170108271319755331 / 2 ^ 100 \<le> exp (73 / 2 ^ 3)"
    by (rule exp_square_step [OF s4]) simp_all
  have s2: "real_of_int 106874442215696494444314439562658965311 / 2 ^ 100 \<le> exp (73 / 2 ^ 2)"
    by (rule exp_square_step [OF s3]) simp_all
  have s1: "real_of_int 9010484747815992415828283167028183763942137479 / 2 ^ 100 \<le> exp (73 / 2 ^ 1)"
    by (rule exp_square_step [OF s2]) simp_all
  have s0: "real_of_int 64046698180087863997509450719920748558728357416257476778206176 / 2 ^ 100 \<le> exp (73)"
    by (rule exp_square_step [OF s1]) simp_all
  show ?thesis by (rule s0)
qed

lemma ln_q_below: "2 * ln (7108019154642233::real) < 73"
proof -
  let ?q = "7108019154642233::real"
  have "?q\<^sup>2 < real_of_int 64046698180087863997509450719920748558728357416257476778206176 / 2 ^ 100"
    by (simp add: power2_eq_square field_simps)
  also have "\<dots> \<le> exp 73"
    by (rule exp_73_lower)
  also have "exp (73::real) = (exp (73 / 2))\<^sup>2"
    by (simp add: exp_double [symmetric])
  finally have "?q\<^sup>2 < (exp (73 / 2))\<^sup>2" .
  then have "?q < exp (73 / 2)"
    by (rule power2_less_imp_less) simp
  then have "ln ?q < ln (exp (73 / 2))"
    by (subst ln_less_cancel_iff) simp_all
  then show ?thesis by simp
qed

theorem sample_count_rounding_counterexample:
  "sample_count
     \<lparr>math_log = (\<lambda>x. if x = 7108019154642233 then 73 / 2 else ln x), times_d = (*)\<rparr>
     2 7108019154642233 = 73
   \<and> \<lfloor>2 * ln (7108019154642233::real)\<rfloor> < 73"
proof -
  have "\<lfloor>2 * ln (7108019154642233::real)\<rfloor> < 73"
    using ln_q_below by (simp add: floor_less_iff)
  then show ?thesis
    by (simp add: sample_count_def)
qed

end
